theory Spec2Isabelle
  imports Main
begin

section \<open>Data model\<close>

text \<open>
  The package \<^verbatim>\<open>pipeline\<close> has three composite stages (\<^verbatim>\<open>pool.go\<close>, \<^verbatim>\<open>bcast.go\<close>).
  An error value is modelled by its message.  A \<^verbatim>\<open>Task\<close> is its \<^verbatim>\<open>Process\<close> method: from
  an item to the pair \<^verbatim>\<open>(dataOut, err)\<close> that the Go method returns, \<open>None\<close> standing
  for \<^verbatim>\<open>nil\<close>.
\<close>

type_synonym err = string

type_synonym 'd task = "'d \<Rightarrow> 'd option \<times> err option"

text \<open>
  Channels are compared by identity: \<open>Ext k\<close> is a channel the pipeline driver made,
  \<open>Made i\<close> the channel a running stage made for its \<open>i\<close>-th replica.  The record
  \<open>params\<close> is the struct of that name that \<^verbatim>\<open>bcast.go\<close> fills in; read through the
  \<^verbatim>\<open>StageParams\<close> interface, \<^verbatim>\<open>Position()\<close> is \<open>stage\<close>, \<^verbatim>\<open>Input()\<close> is \<open>inCh\<close>,
  \<^verbatim>\<open>Output()\<close> is \<open>outCh\<close> and \<^verbatim>\<open>Error()\<close> is \<open>errQueue\<close>.
\<close>

datatype chan = Ext nat | Made nat

record params =
  stage :: int
  inCh :: chan
  outCh :: chan
  errQueue :: nat

text \<open>
  \<^verbatim>\<open>chan struct{}\<close> with a buffer: all tokens are equal, so the channel is its capacity
  and the number of tokens buffered.  A send blocks on a full buffer and a receive on an
  empty one; \<open>None\<close> is "blocks".
\<close>

record tokenChan =
  chan_cap :: nat
  chan_len :: nat

definition make_tokenChan :: "nat \<Rightarrow> tokenChan" where
  "make_tokenChan n = \<lparr>chan_cap = n, chan_len = 0\<rparr>"

definition tc_send :: "tokenChan \<Rightarrow> tokenChan option" where
  "tc_send c = (if chan_len c < chan_cap c then Some (c\<lparr>chan_len := chan_len c + 1\<rparr>) else None)"

definition tc_recv :: "tokenChan \<Rightarrow> tokenChan option" where
  "tc_recv c = (if 0 < chan_len c then Some (c\<lparr>chan_len := chan_len c - 1\<rparr>) else None)"

text \<open>
  The stages.  \<open>fixedPool\<close>, \<open>dynamicPool\<close> and \<open>broadcast\<close> are the three structs of
  the source with their fields.  \<open>FIFO\<close> is the sequential adapter.

  Modelled from the spec: \<^verbatim>\<open>FIFO(task)\<close> is not among the source files; it is kept as
  an opaque stage that holds its task.
\<close>

datatype 'd stage =
    FIFO "'d task"
  | fixedPool (fifos: "'d stage list")
  | dynamicPool (task: "'d task") (tokenPool: tokenChan)
  | broadcast (fifos: "'d stage list")

section \<open>The constructors\<close>

text \<open>
  A constructor returns a \<^verbatim>\<open>Stage\<close> interface value; \<open>None\<close> is the \<^verbatim>\<open>nil\<close> interface.
  \<^verbatim>\<open>FixedPool\<close> fills \<^verbatim>\<open>fifos[i]\<close> for \<^verbatim>\<open>i = 0 .. num-1\<close>, \<^verbatim>\<open>Broadcast\<close> one entry per
  task in order.  Memory is not bounded here: \<^verbatim>\<open>make\<close> gives a slice or channel of any
  size asked for.
\<close>

definition FixedPool :: "'d task \<Rightarrow> int \<Rightarrow> 'd stage option" where
  "FixedPool t num =
     (if num \<le> 0 then None
      else Some (fixedPool (map (\<lambda>i. FIFO t) [0..<nat num])))"

definition Broadcast :: "'d task list \<Rightarrow> 'd stage option" where
  "Broadcast tasks =
     (if length tasks = 0 then None
      else Some (broadcast (map FIFO tasks)))"

text \<open>
  \<^verbatim>\<open>DynamicPool\<close> makes the token channel with capacity \<^verbatim>\<open>max\<close> and then sends \<^verbatim>\<open>max\<close>
  tokens into it, one per loop iteration (\<open>mx\<close> is the parameter \<^verbatim>\<open>max\<close>).  A send that blocked would block the
  constructor for ever, which is the fault \<open>Deadlock\<close>; \<open>fill_tokens k c\<close> runs the
  \<open>k\<close> iterations that are left.
\<close>

datatype fault = Deadlock

fun fill_tokens :: "nat \<Rightarrow> tokenChan \<Rightarrow> fault + tokenChan" where
  "fill_tokens 0 c = Inr c"
| "fill_tokens (Suc k) c =
     (case tc_send c of
        None \<Rightarrow> Inl Deadlock
      | Some c' \<Rightarrow> fill_tokens k c')"

definition DynamicPool :: "'d task \<Rightarrow> int \<Rightarrow> fault + 'd stage option" where
  "DynamicPool t mx =
     (if mx \<le> 0 then Inr None
      else (case fill_tokens (nat mx) (make_tokenChan (nat mx)) of
              Inl f \<Rightarrow> Inl f
            | Inr tp \<Rightarrow> Inr (Some (dynamicPool t tp))))"

section \<open>Running a schedule\<close>

text \<open>
  The stages are concurrent programs.  Each is modelled as a transition function: an
  action names one atomic step of one goroutine (or of the environment: the driver
  cancelling the context or closing the input feed), and \<open>None\<close> says that the step is
  not enabled in that state (the goroutine is elsewhere, or the channel operation
  blocks).  A run of the program is a schedule, a list of actions; the scheduler and
  Go's choice among the ready cases of a \<^verbatim>\<open>select\<close> are the order of the list.
\<close>

fun exec :: "('a \<Rightarrow> 's \<Rightarrow> 's option) \<Rightarrow> 'a list \<Rightarrow> 's \<Rightarrow> 's option" where
  "exec step [] s = Some s"
| "exec step (a # as) s =
     (case step a s of
        None \<Rightarrow> None
      | Some s' \<Rightarrow> exec step as s')"

section \<open>The dynamic pool\<close>

text \<open>
  \<^verbatim>\<open>fmt.Errorf("pipeline stage %d: %v", sp.Position(), err)\<close>: the position in decimal,
  then the error's message.
\<close>

fun dec_nat :: "nat \<Rightarrow> string" where
  "dec_nat n =
     (if n < 10 then [''0123456789'' ! n]
      else dec_nat (n div 10) @ [''0123456789'' ! (n mod 10)])"

declare dec_nat.simps [simp del]

definition dec_int :: "int \<Rightarrow> string" where
  "dec_int i = (if i < 0 then CHR ''-'' # dec_nat (nat (- i)) else dec_nat (nat i))"

definition wrap_error :: "int \<Rightarrow> err \<Rightarrow> err" where
  "wrap_error pos e = ''pipeline stage '' @ dec_int pos @ '': '' @ e"

text \<open>
  Where a launched unit (the goroutine of lines 84--104) stands: about to call
  \<^verbatim>\<open>Process\<close> on its item, at the \<^verbatim>\<open>select\<close> that writes its output, returning with the
  deferred release of the token still to run, or finished.
\<close>

datatype 'd upc = AtProcess 'd | AtOutput 'd | AtDefer | Finished

text \<open>
  Where \<^verbatim>\<open>Run\<close> itself stands: at the outer \<^verbatim>\<open>select\<close>, at the inner \<^verbatim>\<open>select\<close> holding
  the item it received, in the final loop with its counter \<^verbatim>\<open>i\<close>, or returned.
\<close>

datatype 'd mpc = AtAccept | AtPermit 'd | AtDrain nat | Returned

record 'd dstate =
  mpc :: "'d mpc"
  pool :: tokenChan
  units :: "'d upc list"
  inq :: "'d list"
  input_closed :: bool
  cancelled :: bool
  outq :: "'d list"
  errq :: "err list"
  processed :: "'d list"

text \<open>
  \<open>pool\<close> is \<^verbatim>\<open>p.tokenPool\<close>; \<open>units\<close> are the goroutines launched so far, in launch
  order; \<open>inq\<close> are the items still to come on \<^verbatim>\<open>sp.Input()\<close>; \<open>outq\<close> what has been
  written to \<^verbatim>\<open>sp.Output()\<close>; \<open>errq\<close> what has been appended to \<^verbatim>\<open>sp.Error()\<close>;
  \<open>processed\<close> the items whose \<^verbatim>\<open>MarkAsProcessed\<close> was called.
\<close>

text \<open>
  The steps.  Of the environment: \<open>Cancel\<close> closes \<^verbatim>\<open>ctx.Done()\<close>, \<open>CloseInput\<close> closes
  the input feed.  Of \<^verbatim>\<open>Run\<close>: \<open>MainDone\<close> is the case \<^verbatim>\<open><-ctx.Done()\<close> of the \<^verbatim>\<open>select\<close>
  it is at, \<open>MainInput\<close> the case \<^verbatim>\<open><-sp.Input()\<close>, \<open>MainToken\<close> the case
  \<^verbatim>\<open>token = <-p.tokenPool\<close> followed by the \<^verbatim>\<open>go\<close> statement, \<open>MainDrain\<close> one receive of
  the final loop.  Of the unit with index \<open>k\<close>: \<open>Process\<close> is the call of the
  transform with the branch on its result up to the next channel operation, \<open>Send\<close> the
  case \<^verbatim>\<open>sp.Output() <- dataOut\<close>, \<open>SeeDone\<close> the case \<^verbatim>\<open><-ctx.Done()\<close>, \<open>Release\<close> the
  deferred \<^verbatim>\<open>p.tokenPool <- token\<close>.  A write to the output feed completes when the next
  stage takes it; when that is, is the schedule's choice.
\<close>

datatype uaction = Process | Send | SeeDone | Release

datatype daction =
    Cancel
  | CloseInput
  | MainDone
  | MainInput
  | MainToken
  | MainDrain
  | Unit nat uaction

text \<open>One step of a unit.  The deferred function runs on every return.\<close>

fun unit_step ::
  "params \<Rightarrow> 'd task \<Rightarrow> uaction \<Rightarrow> 'd upc \<Rightarrow> 'd dstate \<Rightarrow> ('d upc \<times> 'd dstate) option" where
  "unit_step sp t Process (AtProcess dataIn) s =
     (case t dataIn of
        (dataOut, Some e) \<Rightarrow> Some (AtDefer, s\<lparr>errq := errq s @ [wrap_error (stage sp) e]\<rparr>)
      | (None, None) \<Rightarrow> Some (AtDefer, s\<lparr>processed := processed s @ [dataIn]\<rparr>)
      | (Some dataOut, None) \<Rightarrow> Some (AtOutput dataOut, s))"
| "unit_step sp t Send (AtOutput dataOut) s = Some (AtDefer, s\<lparr>outq := outq s @ [dataOut]\<rparr>)"
| "unit_step sp t SeeDone (AtOutput dataOut) s = (if cancelled s then Some (AtDefer, s) else None)"
| "unit_step sp t Release AtDefer s =
     (case tc_send (pool s) of
        None \<Rightarrow> None
      | Some c \<Rightarrow> Some (Finished, s\<lparr>pool := c\<rparr>))"
| "unit_step sp t a u s = None"

text \<open>The header of the final loop: \<^verbatim>\<open>i < cap(p.tokenPool)\<close>.\<close>

definition drain_loop :: "nat \<Rightarrow> tokenChan \<Rightarrow> 'd mpc" where
  "drain_loop i c = (if i < chan_cap c then AtDrain i else Returned)"

definition dstep :: "params \<Rightarrow> 'd task \<Rightarrow> daction \<Rightarrow> 'd dstate \<Rightarrow> 'd dstate option" where
  "dstep sp t a s =
     (case a of
        Cancel \<Rightarrow> Some (s\<lparr>cancelled := True\<rparr>)
      | CloseInput \<Rightarrow> Some (s\<lparr>input_closed := True\<rparr>)
      | MainDone \<Rightarrow>
          (case mpc s of
             AtAccept \<Rightarrow> if cancelled s then Some (s\<lparr>mpc := drain_loop 0 (pool s)\<rparr>) else None
           | AtPermit dataIn \<Rightarrow> if cancelled s then Some (s\<lparr>mpc := drain_loop 0 (pool s)\<rparr>) else None
           | _ \<Rightarrow> None)
      | MainInput \<Rightarrow>
          (case mpc s of
             AtAccept \<Rightarrow>
               (case inq s of
                  dataIn # rest \<Rightarrow> Some (s\<lparr>inq := rest, mpc := AtPermit dataIn\<rparr>)
                | [] \<Rightarrow> if input_closed s then Some (s\<lparr>mpc := drain_loop 0 (pool s)\<rparr>) else None)
           | _ \<Rightarrow> None)
      | MainToken \<Rightarrow>
          (case mpc s of
             AtPermit dataIn \<Rightarrow>
               (case tc_recv (pool s) of
                  None \<Rightarrow> None
                | Some c \<Rightarrow> Some (s\<lparr>pool := c, units := units s @ [AtProcess dataIn], mpc := AtAccept\<rparr>))
           | _ \<Rightarrow> None)
      | MainDrain \<Rightarrow>
          (case mpc s of
             AtDrain i \<Rightarrow>
               (case tc_recv (pool s) of
                  None \<Rightarrow> None
                | Some c \<Rightarrow> Some (s\<lparr>pool := c, mpc := drain_loop (i + 1) c\<rparr>))
           | _ \<Rightarrow> None)
      | Unit k ua \<Rightarrow>
          (if k < length (units s) then
             (case unit_step sp t ua (units s ! k) s of
                None \<Rightarrow> None
              | Some (u', s') \<Rightarrow> Some (s'\<lparr>units := (units s')[k := u']\<rparr>))
           else None))"

definition dinit :: "tokenChan \<Rightarrow> 'd list \<Rightarrow> 'd dstate" where
  "dinit tp items =
     \<lparr>mpc = AtAccept, pool = tp, units = [], inq = items, input_closed = False,
      cancelled = False, outq = [], errq = [], processed = []\<rparr>"

text \<open>\<^verbatim>\<open>(*dynamicPool).Run\<close> under a schedule, on the items the input feed will carry.\<close>

definition dynamicPool_Run ::
  "'d stage \<Rightarrow> params \<Rightarrow> 'd list \<Rightarrow> daction list \<Rightarrow> 'd dstate option" where
  "dynamicPool_Run p sp items sched = exec (dstep sp (task p)) sched (dinit (tokenPool p) items)"

text \<open>The units that hold a permit: launched and not yet past their release.\<close>

definition holding :: "'d dstate \<Rightarrow> nat" where
  "holding s = length (filter (\<lambda>u. u \<noteq> Finished) (units s))"


definition drained :: "'d dstate \<Rightarrow> nat" where
  "drained s = (case mpc s of AtDrain i \<Rightarrow> i | Returned \<Rightarrow> chan_cap (pool s) | _ \<Rightarrow> 0)"

text \<open>
  The bookkeeping of permits: every permit of the initial pool \<open>tp\<close> is in the pool, held
  by a unit, or already taken back by the final loop.
\<close>

definition permits_inv :: "tokenChan \<Rightarrow> 'd dstate \<Rightarrow> bool" where
  "permits_inv tp s \<longleftrightarrow>
     chan_cap (pool s) = chan_cap tp \<and>
     chan_len (pool s) + holding s + drained s = chan_len tp \<and>
     (case mpc s of AtDrain i \<Rightarrow> i < chan_cap tp | _ \<Rightarrow> True)"

text \<open>A unit on its own: its steps in sequence, nothing else running in between.\<close>

definition unit_exec ::
  "params \<Rightarrow> 'd task \<Rightarrow> uaction list \<Rightarrow> 'd upc \<times> 'd dstate \<Rightarrow> ('d upc \<times> 'd dstate) option" where
  "unit_exec sp t uas = exec (\<lambda>ua (u, s). unit_step sp t ua u s) uas"

section \<open>Replicas and the wait group\<close>

text \<open>
  The fixed pool and the broadcast stage start one goroutine per entry of \<^verbatim>\<open>fifos\<close>.  Such
  a goroutine is not started yet, inside \<^verbatim>\<open>fifos[idx].Run(ctx, params)\<close> (with the stage
  and the parameters of that call), back from it with \<^verbatim>\<open>wg.Done()\<close> still to run, or
  gone.  When the \<^verbatim>\<open>Run\<close> of a \<open>FIFO\<close> returns is not decided by these files, so it may
  return at any time.  The counter of the \<^verbatim>\<open>sync.WaitGroup\<close> is an integer; \<^verbatim>\<open>Wait\<close>
  passes when it is zero.
\<close>

datatype 'd replica = NotStarted | InRun "'d stage" params | AfterRun | Exited

definition active :: "'d replica \<Rightarrow> bool" where
  "active r = (case r of InRun st fp \<Rightarrow> True | AfterRun \<Rightarrow> True | _ \<Rightarrow> False)"

section \<open>The fixed pool\<close>

datatype fpc = FSpawn nat | FWait | FReturned

record 'd fstate =
  fpc :: fpc
  f_wg :: int
  f_replicas :: "'d replica list"

text \<open>
  The steps: \<open>FGo\<close> is one iteration of the loop of line 33 (\<^verbatim>\<open>wg.Add(1)\<close> and the \<^verbatim>\<open>go\<close>
  statement, whose goroutine enters \<^verbatim>\<open>p.fifos[idx].Run\<close>), \<open>FRunReturns idx\<close> the return
  of that \<^verbatim>\<open>Run\<close>, \<open>FWgDone idx\<close> the goroutine's \<^verbatim>\<open>wg.Done()\<close>, \<open>FWaitPasses\<close> the
  return of \<^verbatim>\<open>wg.Wait()\<close>.
\<close>

datatype faction = FGo | FRunReturns nat | FWgDone nat | FWaitPasses

text \<open>The header of the loop of line 33: \<^verbatim>\<open>i < len(p.fifos)\<close>.\<close>

definition fspawn_loop :: "nat \<Rightarrow> nat \<Rightarrow> fpc" where
  "fspawn_loop i n = (if i < n then FSpawn i else FWait)"

definition fstep :: "'d stage \<Rightarrow> params \<Rightarrow> faction \<Rightarrow> 'd fstate \<Rightarrow> 'd fstate option" where
  "fstep p sp a s =
     (case a of
        FGo \<Rightarrow>
          (case fpc s of
             FSpawn i \<Rightarrow>
               Some (s\<lparr>f_wg := f_wg s + 1,
                       f_replicas := (f_replicas s)[i := InRun (fifos p ! i) sp],
                       fpc := fspawn_loop (i + 1) (length (fifos p))\<rparr>)
           | _ \<Rightarrow> None)
      | FRunReturns idx \<Rightarrow>
          (if idx < length (f_replicas s) then
             (case f_replicas s ! idx of
                InRun st fp \<Rightarrow> Some (s\<lparr>f_replicas := (f_replicas s)[idx := AfterRun]\<rparr>)
              | _ \<Rightarrow> None)
           else None)
      | FWgDone idx \<Rightarrow>
          (if idx < length (f_replicas s) then
             (case f_replicas s ! idx of
                AfterRun \<Rightarrow>
                  Some (s\<lparr>f_wg := f_wg s - 1, f_replicas := (f_replicas s)[idx := Exited]\<rparr>)
              | _ \<Rightarrow> None)
           else None)
      | FWaitPasses \<Rightarrow>
          (case fpc s of
             FWait \<Rightarrow> if f_wg s = 0 then Some (s\<lparr>fpc := FReturned\<rparr>) else None
           | _ \<Rightarrow> None))"

definition finit :: "'d stage \<Rightarrow> 'd fstate" where
  "finit p =
     \<lparr>fpc = fspawn_loop 0 (length (fifos p)), f_wg = 0,
      f_replicas = replicate (length (fifos p)) NotStarted\<rparr>"

text \<open>\<^verbatim>\<open>(*fixedPool).Run\<close> under a schedule.\<close>

definition fixedPool_Run :: "'d stage \<Rightarrow> params \<Rightarrow> faction list \<Rightarrow> 'd fstate option" where
  "fixedPool_Run p sp sched = exec (fstep p sp) sched (finit p)"

definition fixed_inv :: "'d stage \<Rightarrow> 'd fstate \<Rightarrow> bool" where
  "fixed_inv p s \<longleftrightarrow>
     length (f_replicas s) = length (fifos p) \<and>
     f_wg s = int (length (filter active (f_replicas s))) \<and>
     (case fpc s of
        FSpawn i \<Rightarrow>
          i < length (fifos p) \<and>
          (\<forall>j < length (fifos p). (f_replicas s ! j = NotStarted) = (i \<le> j))
      | FWait \<Rightarrow> (\<forall>r \<in> set (f_replicas s). r \<noteq> NotStarted)
      | FReturned \<Rightarrow> (\<forall>r \<in> set (f_replicas s). r = Exited))"

section \<open>The broadcast stage\<close>

text \<open>
  An item is a reference into a store of payloads, so that the original and its copies
  can be told apart; \<open>heap\<close> is the store, a reference an index into it.

  Modelled from the spec: \<^verbatim>\<open>Data.Clone()\<close> is a method of an interface that is not among
  the source files.  As the spec has it, it produces an independent copy: a new object
  that holds the payload of the one it was called on.
\<close>

definition Clone :: "'p list \<Rightarrow> nat \<Rightarrow> nat \<times> 'p list" where
  "Clone h r = (length h, h @ [h ! r])"

text \<open>An entry of the slice \<^verbatim>\<open>inCh\<close>: still \<^verbatim>\<open>nil\<close>, made and open, or closed.\<close>

datatype chst = NilCh | Open | Closed

text \<open>
  Where \<^verbatim>\<open>Run\<close> stands: in the loop of line 34 with its \<^verbatim>\<open>i\<close>; at the outer \<^verbatim>\<open>select\<close>; at
  the inner \<^verbatim>\<open>select\<close> with \<^verbatim>\<open>data\<close>, \<^verbatim>\<open>i\<close> and \<^verbatim>\<open>fifoData\<close>; in the loop that closes the
  channels; at \<^verbatim>\<open>wg.Wait()\<close>; or returned.
\<close>

datatype bpc = BSpawn nat | BRecv | BSelect nat int nat | BClose nat | BWait | BReturned

record 'p bstate =
  bpc :: bpc
  b_wg :: int
  b_replicas :: "nat replica list"
  inChs :: "chst list"
  sent :: "(nat \<times> nat) list"
  heap :: "'p list"
  b_inq :: "nat list"
  b_input_closed :: bool
  b_cancelled :: bool

text \<open>
  \<open>inChs\<close> is the slice \<^verbatim>\<open>inCh\<close>; \<open>sent\<close> lists the sends on the private channels that
  were completed, in order, each with the index of the channel and the reference sent.
\<close>

text \<open>
  The steps.  \<open>BCancel\<close> and \<open>BCloseInput\<close> are the environment's.  Of \<^verbatim>\<open>Run\<close>: \<open>BGo\<close>
  is one iteration of the loop of line 34 (\<^verbatim>\<open>wg.Add(1)\<close>, the \<^verbatim>\<open>make\<close>, the \<^verbatim>\<open>go\<close>
  statement, whose goroutine builds \<^verbatim>\<open>fifoParams\<close> and enters \<^verbatim>\<open>Run\<close>), \<open>BMainDone\<close> the
  case \<^verbatim>\<open><-ctx.Done()\<close> of the \<^verbatim>\<open>select\<close> it is at, \<open>BMainInput\<close> the case
  \<^verbatim>\<open><-sp.Input()\<close>, \<open>BDeliver\<close> the case \<^verbatim>\<open>inCh[i] <- fifoData\<close>, \<open>BCloseCh\<close> one
  \<^verbatim>\<open>close(ch)\<close>, \<open>BWaitPasses\<close> the return of \<^verbatim>\<open>wg.Wait()\<close>.  Of the goroutine of
  replica \<open>idx\<close>: \<open>BRunReturns\<close> is the return of its \<^verbatim>\<open>Run\<close>, \<open>BWgDone\<close> its
  \<^verbatim>\<open>wg.Done()\<close>.  The private channels have no buffer and the replica is their only
  receiver, so a send completes only while the replica is inside its \<^verbatim>\<open>Run\<close> and the
  channel is open.
\<close>

datatype baction =
    BCancel
  | BCloseInput
  | BGo
  | BMainDone
  | BMainInput
  | BDeliver
  | BCloseCh
  | BWaitPasses
  | BRunReturns nat
  | BWgDone nat

definition bspawn_loop :: "nat \<Rightarrow> nat \<Rightarrow> bpc" where
  "bspawn_loop i n = (if i < n then BSpawn i else BRecv)"

definition bclose_loop :: "nat \<Rightarrow> nat \<Rightarrow> bpc" where
  "bclose_loop j n = (if j < n then BClose j else BWait)"

text \<open>
  The loop of line 59 from its header to the inner \<^verbatim>\<open>select\<close>: \<^verbatim>\<open>i >= 0\<close>, then
  \<^verbatim>\<open>fifoData\<close> is \<^verbatim>\<open>data\<close>, or its clone when \<^verbatim>\<open>i != 0\<close>.
\<close>

definition fan_loop :: "nat \<Rightarrow> int \<Rightarrow> 'p bstate \<Rightarrow> 'p bstate" where
  "fan_loop d i s =
     (if 0 \<le> i then
        (if i \<noteq> 0 then
           (case Clone (heap s) d of (c, h) \<Rightarrow> s\<lparr>heap := h, bpc := BSelect d i c\<rparr>)
         else s\<lparr>bpc := BSelect d i d\<rparr>)
      else s\<lparr>bpc := BRecv\<rparr>)"

definition receiving :: "'d replica \<Rightarrow> bool" where
  "receiving r = (case r of InRun st fp \<Rightarrow> True | _ \<Rightarrow> False)"

definition bstep :: "nat stage \<Rightarrow> params \<Rightarrow> baction \<Rightarrow> 'p bstate \<Rightarrow> 'p bstate option" where
  "bstep b sp a s =
     (case a of
        BCancel \<Rightarrow> Some (s\<lparr>b_cancelled := True\<rparr>)
      | BCloseInput \<Rightarrow> Some (s\<lparr>b_input_closed := True\<rparr>)
      | BGo \<Rightarrow>
          (case bpc s of
             BSpawn i \<Rightarrow>
               Some (s\<lparr>b_wg := b_wg s + 1,
                       inChs := (inChs s)[i := Open],
                       b_replicas := (b_replicas s)
                         [i := InRun (fifos b ! i)
                                 \<lparr>stage = stage sp, inCh = Made i, outCh = outCh sp,
                                  errQueue = errQueue sp\<rparr>],
                       bpc := bspawn_loop (i + 1) (length (fifos b))\<rparr>)
           | _ \<Rightarrow> None)
      | BMainDone \<Rightarrow>
          (case bpc s of
             BRecv \<Rightarrow>
               if b_cancelled s then Some (s\<lparr>bpc := bclose_loop 0 (length (inChs s))\<rparr>) else None
           | BSelect d i fifoData \<Rightarrow>
               if b_cancelled s then Some (s\<lparr>bpc := bclose_loop 0 (length (inChs s))\<rparr>) else None
           | _ \<Rightarrow> None)
      | BMainInput \<Rightarrow>
          (case bpc s of
             BRecv \<Rightarrow>
               (case b_inq s of
                  d # rest \<Rightarrow> Some (fan_loop d (int (length (fifos b)) - 1) (s\<lparr>b_inq := rest\<rparr>))
                | [] \<Rightarrow>
                    if b_input_closed s
                    then Some (s\<lparr>bpc := bclose_loop 0 (length (inChs s))\<rparr>) else None)
           | _ \<Rightarrow> None)
      | BDeliver \<Rightarrow>
          (case bpc s of
             BSelect d i fifoData \<Rightarrow>
               if receiving (b_replicas s ! nat i) \<and> inChs s ! nat i = Open
               then Some (fan_loop d (i - 1) (s\<lparr>sent := sent s @ [(nat i, fifoData)]\<rparr>))
               else None
           | _ \<Rightarrow> None)
      | BCloseCh \<Rightarrow>
          (case bpc s of
             BClose j \<Rightarrow>
               Some (s\<lparr>inChs := (inChs s)[j := Closed],
                       bpc := bclose_loop (j + 1) (length (inChs s))\<rparr>)
           | _ \<Rightarrow> None)
      | BWaitPasses \<Rightarrow>
          (case bpc s of
             BWait \<Rightarrow> if b_wg s = 0 then Some (s\<lparr>bpc := BReturned\<rparr>) else None
           | _ \<Rightarrow> None)
      | BRunReturns idx \<Rightarrow>
          (if idx < length (b_replicas s) then
             (case b_replicas s ! idx of
                InRun st fp \<Rightarrow> Some (s\<lparr>b_replicas := (b_replicas s)[idx := AfterRun]\<rparr>)
              | _ \<Rightarrow> None)
           else None)
      | BWgDone idx \<Rightarrow>
          (if idx < length (b_replicas s) then
             (case b_replicas s ! idx of
                AfterRun \<Rightarrow>
                  Some (s\<lparr>b_wg := b_wg s - 1, b_replicas := (b_replicas s)[idx := Exited]\<rparr>)
              | _ \<Rightarrow> None)
           else None))"

definition binit :: "nat stage \<Rightarrow> 'p list \<Rightarrow> nat list \<Rightarrow> 'p bstate" where
  "binit b h items =
     \<lparr>bpc = bspawn_loop 0 (length (fifos b)), b_wg = 0,
      b_replicas = replicate (length (fifos b)) NotStarted,
      inChs = replicate (length (fifos b)) NilCh,
      sent = [], heap = h, b_inq = items, b_input_closed = False, b_cancelled = False\<rparr>"

text \<open>
  \<^verbatim>\<open>(*broadcast).Run\<close> under a schedule, on a store and the references the input feed
  will carry.
\<close>

definition broadcast_Run ::
  "nat stage \<Rightarrow> params \<Rightarrow> 'p list \<Rightarrow> nat list \<Rightarrow> baction list \<Rightarrow> 'p bstate option" where
  "broadcast_Run b sp h items sched = exec (bstep b sp) sched (binit b h items)"

definition bcast_inv :: "nat stage \<Rightarrow> params \<Rightarrow> 'p bstate \<Rightarrow> bool" where
  "bcast_inv b sp s \<longleftrightarrow>
     length (b_replicas s) = length (fifos b) \<and>
     length (inChs s) = length (fifos b) \<and>
     b_wg s = int (length (filter active (b_replicas s))) \<and>
     (\<forall>j < length (fifos b). \<forall>st fp. b_replicas s ! j = InRun st fp \<longrightarrow>
        st = fifos b ! j \<and> fp = sp\<lparr>inCh := Made j\<rparr>) \<and>
     (case bpc s of
        BSpawn i \<Rightarrow>
          i < length (fifos b) \<and>
          (\<forall>j < length (fifos b). (b_replicas s ! j = NotStarted) = (i \<le> j))
      | BRecv \<Rightarrow> (\<forall>r \<in> set (b_replicas s). r \<noteq> NotStarted)
      | BSelect d i fifoData \<Rightarrow> (\<forall>r \<in> set (b_replicas s). r \<noteq> NotStarted)
      | BClose j \<Rightarrow>
          j < length (fifos b) \<and> (\<forall>r \<in> set (b_replicas s). r \<noteq> NotStarted) \<and>
          (\<forall>k < j. inChs s ! k = Closed)
      | BWait \<Rightarrow>
          (\<forall>r \<in> set (b_replicas s). r \<noteq> NotStarted) \<and> (\<forall>c \<in> set (inChs s). c = Closed)
      | BReturned \<Rightarrow>
          (\<forall>r \<in> set (b_replicas s). r = Exited) \<and> (\<forall>c \<in> set (inChs s). c = Closed))"

section \<open>Sample inputs\<close>

text \<open>
  A task with all three results: it fails on \<open>0\<close>, produces nothing on \<open>1\<close> and doubles
  every other number.
\<close>

definition demo_task :: "nat task" where
  "demo_task d =
     (if d = 0 then (None, Some ''boom'')
      else if d = 1 then (None, None)
      else (Some (2 * d), None))"

definition demo_params :: params where
  "demo_params = \<lparr>stage = 3, inCh = Ext 0, outCh = Ext 1, errQueue = 0\<rparr>"


text \<open>
  A state of the dynamic pool after cancellation: \<^verbatim>\<open>Run\<close> holds item \<open>9\<close> and waits for a
  permit, three units are about to call \<^verbatim>\<open>Process\<close> and one is writing its output.
\<close>

definition demo_state :: "nat dstate" where
  "demo_state =
     \<lparr>mpc = AtPermit 9, pool = \<lparr>chan_cap = 4, chan_len = 0\<rparr>,
      units = [AtProcess 0, AtProcess 1, AtProcess 5, AtOutput 10],
      inq = [], input_closed = False, cancelled = True, outq = [], errq = [], processed = []\<rparr>"

lemma exec_invariant:
  assumes step: "\<And>a s s'. I s \<Longrightarrow> step a s = Some s' \<Longrightarrow> I s'"
  shows "I s \<Longrightarrow> exec step as s = Some s' \<Longrightarrow> I s'"
proof (induction as arbitrary: s)
  case Nil
  then show ?case by simp
next
  case (Cons a as)
  then show ?case by (auto split: option.splits intro: step)
qed

lemma filter_length_update:
  "k < length xs \<Longrightarrow>
   length (filter P (xs[k := y])) + (if P (xs ! k) then 1 else 0) =
   length (filter P xs) + (if P y then 1 else 0)"
proof (induction xs arbitrary: k)
  case Nil
  then show ?case by simp
next
  case (Cons x xs)
  then show ?case by (cases k) auto
qed

lemma unit_step_cases:
  assumes "unit_step sp t ua u s = Some (u', s')"
  shows "(u' \<noteq> Finished \<and> u \<noteq> Finished \<and> pool s' = pool s \<and> mpc s' = mpc s \<and> units s' = units s) \<or>
         (u' = Finished \<and> u = AtDefer \<and> chan_len (pool s) < chan_cap (pool s) \<and>
          pool s' = (pool s)\<lparr>chan_len := chan_len (pool s) + 1\<rparr> \<and> mpc s' = mpc s \<and> units s' = units s)"
  using assms
  by (cases "(sp, t, ua, u, s)" rule: unit_step.cases)
     (auto simp: tc_send_def split: prod.splits option.splits if_splits)

lemma holding_update:
  "k < length (units s) \<Longrightarrow> units s' = (units s)[k := u'] \<Longrightarrow>
   holding s' + (if units s ! k \<noteq> Finished then 1 else 0) =
   holding s + (if u' \<noteq> Finished then 1 else 0)"
  unfolding holding_def using filter_length_update[of k "units s" "\<lambda>u. u \<noteq> Finished" u'] by simp

lemma holding_pos: "k < length (units s) \<Longrightarrow> units s ! k \<noteq> Finished \<Longrightarrow> 0 < holding s"
proof -
  assume "k < length (units s)" "units s ! k \<noteq> Finished"
  then have "units s ! k \<in> set (filter (\<lambda>u. u \<noteq> Finished) (units s))" by simp
  then have "filter (\<lambda>u. u \<noteq> Finished) (units s) \<noteq> []" by (metis empty_iff empty_set)
  then show ?thesis by (simp add: holding_def)
qed

lemma dstep_permits_inv:
  assumes "permits_inv tp s" and "dstep sp t a s = Some s'"
  shows "permits_inv tp s'"
proof (cases a)
  case (Unit k ua)
  with assms(2) obtain u' s1 where k: "k < length (units s)"
    and us: "unit_step sp t ua (units s ! k) s = Some (u', s1)"
    and s': "s' = s1\<lparr>units := (units s1)[k := u']\<rparr>"
    by (auto simp: dstep_def split: if_splits option.splits)
  from unit_step_cases[OF us] have same: "mpc s1 = mpc s" "units s1 = units s" by auto
  with s' have upd: "units s' = (units s)[k := u']" and m: "mpc s' = mpc s" and p: "pool s' = pool s1"
    by simp_all
  note h = holding_update[OF k upd]
  from unit_step_cases[OF us] show ?thesis
  proof
    assume "u' \<noteq> Finished \<and> units s ! k \<noteq> Finished \<and> pool s1 = pool s \<and> mpc s1 = mpc s \<and> units s1 = units s"
    with h assms(1) m p show ?thesis
      by (auto simp: permits_inv_def drained_def split: mpc.splits)
  next
    assume "u' = Finished \<and> units s ! k = AtDefer \<and> chan_len (pool s) < chan_cap (pool s) \<and>
          pool s1 = (pool s)\<lparr>chan_len := chan_len (pool s) + 1\<rparr> \<and> mpc s1 = mpc s \<and> units s1 = units s"
    with h assms(1) m p show ?thesis
      by (auto simp: permits_inv_def drained_def split: mpc.splits)
  qed
next
  case Cancel
  with assms show ?thesis
    by (auto simp: dstep_def permits_inv_def drained_def holding_def split: mpc.splits)
next
  case CloseInput
  with assms show ?thesis
    by (auto simp: dstep_def permits_inv_def drained_def holding_def split: mpc.splits)
next
  case MainDone
  with assms show ?thesis
    by (auto simp: dstep_def permits_inv_def drained_def holding_def drain_loop_def
        split: mpc.splits if_splits)
next
  case MainInput
  with assms show ?thesis
    by (auto simp: dstep_def permits_inv_def drained_def holding_def drain_loop_def
        split: mpc.splits if_splits list.splits)
next
  case MainToken
  with assms show ?thesis
    by (auto simp: dstep_def permits_inv_def drained_def holding_def drain_loop_def tc_recv_def
        split: mpc.splits if_splits list.splits)
next
  case MainDrain
  with assms show ?thesis
    by (auto simp: dstep_def permits_inv_def drained_def holding_def drain_loop_def tc_recv_def
        split: mpc.splits if_splits list.splits)
qed


lemma dinit_permits_inv: "permits_inv tp (dinit tp items)"
  by (simp add: permits_inv_def dinit_def holding_def drained_def)

lemma run_permits_inv:
  "exec (dstep sp t) sched (dinit tp items) = Some s \<Longrightarrow> permits_inv tp s"
  by (rule exec_invariant[where I = "permits_inv tp" and step = "dstep sp t"])
     (auto intro: dstep_permits_inv dinit_permits_inv)

lemma fill_tokens_full:
  "chan_len c + k \<le> chan_cap c \<Longrightarrow> fill_tokens k c = Inr (c\<lparr>chan_len := chan_len c + k\<rparr>)"
  by (induction k arbitrary: c) (auto simp: tc_send_def)

lemma DynamicPool_valid:
  "1 \<le> mx \<Longrightarrow> DynamicPool t mx = Inr (Some (dynamicPool t \<lparr>chan_cap = nat mx, chan_len = nat mx\<rparr>))"
  by (simp add: DynamicPool_def fill_tokens_full make_tokenChan_def)

lemma active_simps [simp]:
  "\<not> active NotStarted" "active (InRun st fp)" "active AfterRun" "\<not> active Exited"
  by (simp_all add: active_def)

lemma filter_active_update:
  "k < length xs \<Longrightarrow>
   int (length (filter active (xs[k := y]))) =
   int (length (filter active xs)) - (if active (xs ! k) then 1 else 0) + (if active y then 1 else 0)"
  using filter_length_update[of k xs active y] by (simp split: if_splits)

lemma set_update_all:
  "\<forall>r \<in> set xs. P r \<Longrightarrow> P y \<Longrightarrow> \<forall>r \<in> set (xs[k := y]). P r"
  by (metis insertE set_update_subset_insert subsetD)

lemma all_nth_set: "(\<forall>j < length xs. P (xs ! j)) \<longleftrightarrow> (\<forall>r \<in> set xs. P r)"
  by (simp add: all_set_conv_all_nth)

lemma fstep_fixed_inv:
  assumes "fixed_inv p s" and "fstep p sp a s = Some s'"
  shows "fixed_inv p s'"
proof (cases a)
  case FGo
  with assms(2) obtain i where pc: "fpc s = FSpawn i"
    and s': "s' = s\<lparr>f_wg := f_wg s + 1,
                       f_replicas := (f_replicas s)[i := InRun (fifos p ! i) sp],
                       fpc := fspawn_loop (i + 1) (length (fifos p))\<rparr>"
    by (auto simp: fstep_def split: fpc.splits)
  from assms(1) pc have len: "length (f_replicas s) = length (fifos p)" and i: "i < length (fifos p)"
    and wg: "f_wg s = int (length (filter active (f_replicas s)))"
    and ns: "\<forall>j < length (fifos p). (f_replicas s ! j = NotStarted) = (i \<le> j)"
    by (auto simp: fixed_inv_def)
  from ns i have ni: "f_replicas s ! i = NotStarted" by simp
  have wg': "f_wg s' = int (length (filter active (f_replicas s')))"
    using s' wg filter_active_update[of i "f_replicas s" "InRun (fifos p ! i) sp"] i len ni by simp
  have ns': "\<forall>j < length (fifos p). (f_replicas s' ! j = NotStarted) = (i + 1 \<le> j)"
  proof (intro allI impI)
    fix j assume j: "j < length (fifos p)"
    show "(f_replicas s' ! j = NotStarted) = (i + 1 \<le> j)"
    proof (cases "j = i")
      case True
      with s' len j show ?thesis by simp
    next
      case False
      with s' ns j show ?thesis by auto
    qed
  qed
  show ?thesis
  proof (cases "i + 1 < length (fifos p)")
    case True
    with s' len wg' ns' show ?thesis by (simp add: fixed_inv_def fspawn_loop_def)
  next
    case False
    with ns' have "\<forall>j < length (f_replicas s'). f_replicas s' ! j \<noteq> NotStarted"
      using s' len by simp
    then have "\<forall>r \<in> set (f_replicas s'). r \<noteq> NotStarted"
      by (simp add: all_set_conv_all_nth)
    with False s' len wg' show ?thesis by (simp add: fixed_inv_def fspawn_loop_def)
  qed
next
  case (FRunReturns k)
  with assms(2) obtain st fp where k: "k < length (f_replicas s)"
    and rk: "f_replicas s ! k = InRun st fp"
    and s': "s' = s\<lparr>f_replicas := (f_replicas s)[k := AfterRun]\<rparr>"
    by (auto simp: fstep_def split: if_splits replica.splits)
  have wg: "int (length (filter active (f_replicas s'))) = int (length (filter active (f_replicas s)))"
    using filter_active_update[OF k, of AfterRun] rk s' by simp
  show ?thesis
  proof (cases "fpc s")
    case (FSpawn i)
    with assms(1) s' wg k rk show ?thesis
      by (auto simp: fixed_inv_def nth_list_update)
  next
    case FWait
    with assms(1) have "\<forall>r \<in> set (f_replicas s). r \<noteq> NotStarted" by (simp add: fixed_inv_def)
    then have "\<forall>r \<in> set ((f_replicas s)[k := AfterRun]). r \<noteq> NotStarted"
      by (rule set_update_all) simp
    with FWait assms(1) s' wg show ?thesis
      by (simp add: fixed_inv_def)
  next
    case FReturned
    with assms(1) have "\<forall>r \<in> set (f_replicas s). r = Exited" by (simp add: fixed_inv_def)
    with k have "f_replicas s ! k = Exited" by simp
    with rk have False by simp
    then show ?thesis ..
  qed
next
  case (FWgDone k)
  with assms(2) have k: "k < length (f_replicas s)"
    and rk: "f_replicas s ! k = AfterRun"
    and s': "s' = s\<lparr>f_wg := f_wg s - 1, f_replicas := (f_replicas s)[k := Exited]\<rparr>"
    by (auto simp: fstep_def split: if_splits replica.splits)
  have wg: "int (length (filter active (f_replicas s'))) = int (length (filter active (f_replicas s))) - 1"
    using filter_active_update[OF k, of Exited] rk s' by simp
  show ?thesis
  proof (cases "fpc s")
    case (FSpawn i)
    with assms(1) s' wg k rk show ?thesis
      by (auto simp: fixed_inv_def nth_list_update)
  next
    case FWait
    with assms(1) have "\<forall>r \<in> set (f_replicas s). r \<noteq> NotStarted" by (simp add: fixed_inv_def)
    then have "\<forall>r \<in> set ((f_replicas s)[k := Exited]). r \<noteq> NotStarted"
      by (rule set_update_all) simp
    with FWait assms(1) s' wg show ?thesis
      by (simp add: fixed_inv_def)
  next
    case FReturned
    with assms(1) have "\<forall>r \<in> set (f_replicas s). r = Exited" by (simp add: fixed_inv_def)
    with k have "f_replicas s ! k = Exited" by simp
    with rk have False by simp
    then show ?thesis ..
  qed
next
  case FWaitPasses
  with assms(2) have pc: "fpc s = FWait" and z: "f_wg s = 0" and s': "s' = s\<lparr>fpc := FReturned\<rparr>"
    by (auto simp: fstep_def split: if_splits fpc.splits)
  from assms(1) pc z have none: "filter active (f_replicas s) = []"
    and started: "\<forall>r \<in> set (f_replicas s). r \<noteq> NotStarted"
    by (auto simp: fixed_inv_def)
  have "\<forall>r \<in> set (f_replicas s). r = Exited"
  proof
    fix r assume r: "r \<in> set (f_replicas s)"
    with none have "\<not> active r" by (auto simp: filter_empty_conv)
    moreover from r started have "r \<noteq> NotStarted" by simp
    ultimately show "r = Exited" by (cases r) simp_all
  qed
  with assms(1) s' none show ?thesis by (simp add: fixed_inv_def)
qed

lemma finit_fixed_inv: "fixed_inv p (finit p)"
  by (auto simp: fixed_inv_def finit_def fspawn_loop_def active_def)

lemma run_fixed_inv: "fixedPool_Run p sp sched = Some s \<Longrightarrow> fixed_inv p s"
  unfolding fixedPool_Run_def
  by (rule exec_invariant[where I = "fixed_inv p" and step = "fstep p sp"])
     (auto intro: fstep_fixed_inv finit_fixed_inv)

lemma notstarted_update:
  assumes "k < length xs" "xs ! k \<noteq> NotStarted" "y \<noteq> NotStarted"
  shows "(xs[k := y] ! j = NotStarted) = (xs ! j = NotStarted)"
  using assms by (cases "j = k") simp_all

lemma started_update:
  assumes "\<forall>r \<in> set xs. r \<noteq> NotStarted" "y \<noteq> NotStarted"
  shows "\<forall>r \<in> set (xs[k := y]). r \<noteq> NotStarted"
  using assms by (rule set_update_all)

lemma fan_loop_frame:
  "b_replicas (fan_loop d i s) = b_replicas s \<and> inChs (fan_loop d i s) = inChs s \<and>
   b_wg (fan_loop d i s) = b_wg s \<and>
   (bpc (fan_loop d i s) = BRecv \<or> (\<exists>fd. bpc (fan_loop d i s) = BSelect d i fd))"
  by (simp add: fan_loop_def Clone_def)

lemma bcast_inv_replica_step:
  assumes inv: "bcast_inv b sp s" and k: "k < length (b_replicas s)"
    and old: "b_replicas s ! k \<noteq> NotStarted" "b_replicas s ! k \<noteq> Exited"
    and new: "y \<noteq> NotStarted" "\<forall>st fp. y \<noteq> InRun st fp"
    and s': "b_replicas s' = (b_replicas s)[k := y]" "inChs s' = inChs s" "bpc s' = bpc s"
      "b_wg s' = b_wg s - (if active y then 0 else 1)"
  shows "bcast_inv b sp s'"
proof -
  from old have act: "active (b_replicas s ! k)" by (cases "b_replicas s ! k") simp_all
  from inv have len: "length (b_replicas s) = length (fifos b)" and wg: "b_wg s = int (length (filter active (b_replicas s)))"
    by (simp_all add: bcast_inv_def)
  have wg': "b_wg s' = int (length (filter active (b_replicas s')))"
    using filter_active_update[OF k, of y] act s' wg by simp
  have par: "\<forall>j < length (fifos b). \<forall>st fp. b_replicas s' ! j = InRun st fp \<longrightarrow>
        st = fifos b ! j \<and> fp = sp\<lparr>inCh := Made j\<rparr>"
  proof (intro allI impI)
    fix j st fp assume j: "j < length (fifos b)" and r: "b_replicas s' ! j = InRun st fp"
    with new s' k have "j \<noteq> k" by auto
    with r s' have "b_replicas s ! j = InRun st fp" by simp
    with inv j show "st = fifos b ! j \<and> fp = sp\<lparr>inCh := Made j\<rparr>" by (simp add: bcast_inv_def)
  qed
  have ns: "\<And>j. (b_replicas s' ! j = NotStarted) = (b_replicas s ! j = NotStarted)"
    using notstarted_update[OF k old(1) new(1)] s' by simp
  have st: "(\<forall>r \<in> set (b_replicas s). r \<noteq> NotStarted) \<Longrightarrow> (\<forall>r \<in> set (b_replicas s'). r \<noteq> NotStarted)"
    using started_update[of "b_replicas s" y k] new s' by simp
  show ?thesis
  proof (cases "bpc s")
    case (BSpawn i)
    with inv s' len wg' par ns show ?thesis by (simp add: bcast_inv_def)
  next
    case BRecv
    with inv s' len wg' par st show ?thesis by (simp add: bcast_inv_def)
  next
    case (BSelect d i fd)
    with inv s' len wg' par st show ?thesis by (simp add: bcast_inv_def)
  next
    case (BClose j)
    with inv s' len wg' par st show ?thesis by (simp add: bcast_inv_def)
  next
    case BWait
    with inv s' len wg' par st show ?thesis by (simp add: bcast_inv_def)
  next
    case BReturned
    with inv have "\<forall>r \<in> set (b_replicas s). r = Exited" by (simp add: bcast_inv_def)
    with k have "b_replicas s ! k = Exited" by simp
    with old show ?thesis by simp
  qed
qed

lemma bcast_inv_same:
  assumes inv: "bcast_inv b sp s"
    and s': "b_replicas s' = b_replicas s" "inChs s' = inChs s" "b_wg s' = b_wg s" "bpc s' = bpc s"
  shows "bcast_inv b sp s'"
  using inv unfolding bcast_inv_def s' .

lemma bcast_inv_started:
  assumes inv: "bcast_inv b sp s" and pc: "bpc s = BRecv \<or> (\<exists>d i fd. bpc s = BSelect d i fd)"
  shows "\<forall>r \<in> set (b_replicas s). r \<noteq> NotStarted"
  using inv pc by (auto simp: bcast_inv_def)

lemma bcast_inv_base:
  assumes inv: "bcast_inv b sp s"
  shows "length (b_replicas s) = length (fifos b)" "length (inChs s) = length (fifos b)"
      "b_wg s = int (length (filter active (b_replicas s)))"
      "\<forall>j < length (fifos b). \<forall>st fp. b_replicas s ! j = InRun st fp \<longrightarrow>
        st = fifos b ! j \<and> fp = sp\<lparr>inCh := Made j\<rparr>"
  using inv by (simp_all add: bcast_inv_def)

lemma bcast_inv_to_close:
  assumes inv: "bcast_inv b sp s" and pc: "bpc s = BRecv \<or> (\<exists>d i fd. bpc s = BSelect d i fd)"
  shows "bcast_inv b sp (s\<lparr>bpc := bclose_loop 0 (length (inChs s))\<rparr>)"
proof (cases "0 < length (inChs s)")
  case True
  with bcast_inv_started[OF inv pc] bcast_inv_base[OF inv] show ?thesis
    by (simp add: bcast_inv_def bclose_loop_def)
next
  case False
  with bcast_inv_started[OF inv pc] bcast_inv_base[OF inv] show ?thesis
    by (simp add: bcast_inv_def bclose_loop_def)
qed

lemma bcast_inv_fan:
  assumes inv: "bcast_inv b sp s" and pc: "bpc s = BRecv \<or> (\<exists>d i fd. bpc s = BSelect d i fd)"
    and s0: "b_replicas s0 = b_replicas s" "inChs s0 = inChs s" "b_wg s0 = b_wg s"
  shows "bcast_inv b sp (fan_loop d i s0)"
proof -
  let ?s = "fan_loop d i s0"
  from fan_loop_frame[of d i s0] s0
  have fr: "b_replicas ?s = b_replicas s" "inChs ?s = inChs s" "b_wg ?s = b_wg s"
    and pc': "bpc ?s = BRecv \<or> (\<exists>fd. bpc ?s = BSelect d i fd)"
    by simp_all
  from pc' show ?thesis
  proof
    assume "bpc ?s = BRecv"
    with bcast_inv_started[OF inv pc] bcast_inv_base[OF inv] fr show ?thesis
      by (simp add: bcast_inv_def)
  next
    assume "\<exists>fd. bpc ?s = BSelect d i fd"
    then obtain fd where "bpc ?s = BSelect d i fd" ..
    with bcast_inv_started[OF inv pc] bcast_inv_base[OF inv] fr show ?thesis
      by (simp add: bcast_inv_def)
  qed
qed

lemma bstep_bcast_inv:
  assumes inv: "bcast_inv b sp s" and step: "bstep b sp a s = Some s'"
  shows "bcast_inv b sp s'"
proof (cases a)
  case BCancel
  with step have "s' = s\<lparr>b_cancelled := True\<rparr>" by (simp add: bstep_def)
  then show ?thesis by (intro bcast_inv_same[OF inv]) simp_all
next
  case BCloseInput
  with step have "s' = s\<lparr>b_input_closed := True\<rparr>" by (simp add: bstep_def)
  then show ?thesis by (intro bcast_inv_same[OF inv]) simp_all
next
  case BGo
  with step obtain i where pc: "bpc s = BSpawn i"
    and s': "s' = s\<lparr>b_wg := b_wg s + 1,
                       inChs := (inChs s)[i := Open],
                       b_replicas := (b_replicas s)
                         [i := InRun (fifos b ! i)
                                 \<lparr>stage = stage sp, inCh = Made i, outCh = outCh sp,
                                  errQueue = errQueue sp\<rparr>],
                       bpc := bspawn_loop (i + 1) (length (fifos b))\<rparr>"
    by (auto simp: bstep_def split: bpc.splits)
  let ?r = "InRun (fifos b ! i) \<lparr>stage = stage sp, inCh = Made i, outCh = outCh sp, errQueue = errQueue sp\<rparr>"
  from inv pc have len: "length (b_replicas s) = length (fifos b)" "length (inChs s) = length (fifos b)"
    and i: "i < length (fifos b)"
    and wg: "b_wg s = int (length (filter active (b_replicas s)))"
    and par: "\<forall>j < length (fifos b). \<forall>st fp. b_replicas s ! j = InRun st fp \<longrightarrow>
        st = fifos b ! j \<and> fp = sp\<lparr>inCh := Made j\<rparr>"
    and ns: "\<forall>j < length (fifos b). (b_replicas s ! j = NotStarted) = (i \<le> j)"
    by (auto simp: bcast_inv_def)
  from ns i have ni: "b_replicas s ! i = NotStarted" by simp
  have wg': "b_wg s' = int (length (filter active (b_replicas s')))"
    using s' wg filter_active_update[of i "b_replicas s" ?r] i len ni by simp
  have ns': "\<forall>j < length (fifos b). (b_replicas s' ! j = NotStarted) = (i + 1 \<le> j)"
  proof (intro allI impI)
    fix j assume j: "j < length (fifos b)"
    show "(b_replicas s' ! j = NotStarted) = (i + 1 \<le> j)"
    proof (cases "j = i")
      case True
      with s' len j show ?thesis by simp
    next
      case False
      with s' ns j show ?thesis by auto
    qed
  qed
  have par': "\<forall>j < length (fifos b). \<forall>st fp. b_replicas s' ! j = InRun st fp \<longrightarrow>
        st = fifos b ! j \<and> fp = sp\<lparr>inCh := Made j\<rparr>"
  proof (intro allI impI)
    fix j st fp assume j: "j < length (fifos b)" and r: "b_replicas s' ! j = InRun st fp"
    show "st = fifos b ! j \<and> fp = sp\<lparr>inCh := Made j\<rparr>"
    proof (cases "j = i")
      case True
      with r s' len j show ?thesis by auto
    next
      case False
      with r s' have "b_replicas s ! j = InRun st fp" by simp
      with par j show ?thesis by simp
    qed
  qed
  from s' len have len': "length (b_replicas s') = length (fifos b)" "length (inChs s') = length (fifos b)"
    and pc': "bpc s' = bspawn_loop (i + 1) (length (fifos b))"
    by simp_all
  show ?thesis
  proof (cases "i + 1 < length (fifos b)")
    case True
    with pc' have "bpc s' = BSpawn (i + 1)" by (simp add: bspawn_loop_def)
    with True len' wg' ns' par' show ?thesis unfolding bcast_inv_def by simp
  next
    case False
    with ns' have "\<forall>j < length (b_replicas s'). b_replicas s' ! j \<noteq> NotStarted"
      using len' by simp
    then have st': "\<forall>r \<in> set (b_replicas s'). r \<noteq> NotStarted"
      by (simp add: all_set_conv_all_nth)
    from False pc' have "bpc s' = BRecv" by (simp add: bspawn_loop_def)
    with st' len' wg' par' show ?thesis unfolding bcast_inv_def by simp
  qed
next
  case BMainDone
  with step have pc: "bpc s = BRecv \<or> (\<exists>d i fd. bpc s = BSelect d i fd)"
    and s': "s' = s\<lparr>bpc := bclose_loop 0 (length (inChs s))\<rparr>"
    by (auto simp: bstep_def split: bpc.splits if_splits)
  show ?thesis unfolding s' by (rule bcast_inv_to_close[OF inv pc])
next
  case BMainInput
  with step have pc: "bpc s = BRecv"
    and s': "(\<exists>d rest. s' = fan_loop d (int (length (fifos b)) - 1) (s\<lparr>b_inq := rest\<rparr>)) \<or>
             s' = s\<lparr>bpc := bclose_loop 0 (length (inChs s))\<rparr>"
    by (auto simp: bstep_def split: bpc.splits if_splits list.splits)
  from s' show ?thesis
  proof
    assume "\<exists>d rest. s' = fan_loop d (int (length (fifos b)) - 1) (s\<lparr>b_inq := rest\<rparr>)"
    then obtain d rest where e: "s' = fan_loop d (int (length (fifos b)) - 1) (s\<lparr>b_inq := rest\<rparr>)" by blast
    show ?thesis unfolding e by (rule bcast_inv_fan[OF inv]) (simp_all add: pc)
  next
    assume "s' = s\<lparr>bpc := bclose_loop 0 (length (inChs s))\<rparr>"
    with pc show ?thesis by (simp add: bcast_inv_to_close[OF inv])
  qed
next
  case BDeliver
  with step obtain d i fd where pc: "bpc s = BSelect d i fd"
    and e: "s' = fan_loop d (i - 1) (s\<lparr>sent := sent s @ [(nat i, fd)]\<rparr>)"
    by (auto simp: bstep_def split: bpc.splits if_splits)
  show ?thesis unfolding e by (rule bcast_inv_fan[OF inv]) (simp_all add: pc)
next
  case BCloseCh
  with step obtain j where pc: "bpc s = BClose j"
    and s': "s' = s\<lparr>inChs := (inChs s)[j := Closed], bpc := bclose_loop (j + 1) (length (inChs s))\<rparr>"
    by (auto simp: bstep_def split: bpc.splits)
  from inv pc have len: "length (b_replicas s) = length (fifos b)" "length (inChs s) = length (fifos b)"
    and j: "j < length (fifos b)"
    and wg: "b_wg s = int (length (filter active (b_replicas s)))"
    and par: "\<forall>j < length (fifos b). \<forall>st fp. b_replicas s ! j = InRun st fp \<longrightarrow>
        st = fifos b ! j \<and> fp = sp\<lparr>inCh := Made j\<rparr>"
    and st: "\<forall>r \<in> set (b_replicas s). r \<noteq> NotStarted"
    and cl: "\<forall>k < j. inChs s ! k = Closed"
    by (auto simp: bcast_inv_def)
  have cl': "\<forall>k < j + 1. (inChs s)[j := Closed] ! k = Closed"
    using cl j len by (auto simp: nth_list_update)
  show ?thesis
  proof (cases "j + 1 < length (fifos b)")
    case True
    with s' len wg par st cl' show ?thesis by (simp add: bcast_inv_def bclose_loop_def)
  next
    case False
    with j have "j + 1 = length ((inChs s)[j := Closed])" using len by simp
    with cl' have "\<forall>c \<in> set ((inChs s)[j := Closed]). c = Closed"
      by (simp add: all_set_conv_all_nth)
    with False s' len wg par st show ?thesis by (simp add: bcast_inv_def bclose_loop_def)
  qed
next
  case BWaitPasses
  with step have pc: "bpc s = BWait" and z: "b_wg s = 0" and s': "s' = s\<lparr>bpc := BReturned\<rparr>"
    by (auto simp: bstep_def split: if_splits bpc.splits)
  from inv pc z have none: "filter active (b_replicas s) = []"
    and started: "\<forall>r \<in> set (b_replicas s). r \<noteq> NotStarted"
    by (auto simp: bcast_inv_def)
  have "\<forall>r \<in> set (b_replicas s). r = Exited"
  proof
    fix r assume r: "r \<in> set (b_replicas s)"
    with none have "\<not> active r" by (auto simp: filter_empty_conv)
    moreover from r started have "r \<noteq> NotStarted" by simp
    ultimately show "r = Exited" by (cases r) simp_all
  qed
  with inv pc s' none show ?thesis by (simp add: bcast_inv_def)
next
  case (BRunReturns k)
  with step obtain st fp where k: "k < length (b_replicas s)"
    and rk: "b_replicas s ! k = InRun st fp"
    and s': "s' = s\<lparr>b_replicas := (b_replicas s)[k := AfterRun]\<rparr>"
    by (auto simp: bstep_def split: if_splits replica.splits)
  show ?thesis
    by (rule bcast_inv_replica_step[OF inv k, where y = AfterRun]) (simp_all add: rk s')
next
  case (BWgDone k)
  with step have k: "k < length (b_replicas s)"
    and rk: "b_replicas s ! k = AfterRun"
    and s': "s' = s\<lparr>b_wg := b_wg s - 1, b_replicas := (b_replicas s)[k := Exited]\<rparr>"
    by (auto simp: bstep_def split: if_splits replica.splits)
  show ?thesis
    by (rule bcast_inv_replica_step[OF inv k, where y = Exited]) (simp_all add: rk s')
qed

lemma binit_bcast_inv: "bcast_inv b sp (binit b h items)"
  by (auto simp: bcast_inv_def binit_def bspawn_loop_def active_def)

lemma run_bcast_inv: "broadcast_Run b sp h items sched = Some s \<Longrightarrow> bcast_inv b sp s"
  unfolding broadcast_Run_def
  by (rule exec_invariant[where I = "bcast_inv b sp" and step = "bstep b sp"])
     (auto intro: bstep_bcast_inv binit_bcast_inv)

section \<open>The constructors: claims\<close>

text \<open>
  Claim C6.  Each constructor returns the \<^verbatim>\<open>nil\<close> stage, and no error, exactly when its
  parameter is invalid: \<open>FixedPool\<close> for a worker count \<open>\<le> 0\<close>, \<open>DynamicPool\<close> for a
  ceiling \<open>\<le> 0\<close>, \<open>Broadcast\<close> for an empty list of tasks.  With a valid parameter each
  returns a stage that is not \<^verbatim>\<open>nil\<close>: \<open>num\<close> sequential replicas of the task, a pool of
  \<open>mx\<close> tokens, one sequential replica per task.
\<close>

theorem constructors_nil_iff_invalid:
  "(FixedPool t num = None \<longleftrightarrow> num \<le> 0) \<and>
   (DynamicPool t mx = Inr None \<longleftrightarrow> mx \<le> 0) \<and>
   (Broadcast tasks = None \<longleftrightarrow> tasks = []) \<and>
   (0 < num \<longrightarrow> FixedPool t num = Some (fixedPool (replicate (nat num) (FIFO t)))) \<and>
   (0 < mx \<longrightarrow>
      DynamicPool t mx = Inr (Some (dynamicPool t \<lparr>chan_cap = nat mx, chan_len = nat mx\<rparr>))) \<and>
   (tasks \<noteq> [] \<longrightarrow> Broadcast tasks = Some (broadcast (map FIFO tasks)))"
proof -
  have f: "map (\<lambda>i. FIFO t) [0..<nat num] = replicate (nat num) (FIFO t)"
    by (simp add: map_replicate_const)
  have d: "0 < mx \<Longrightarrow>
      DynamicPool t mx = Inr (Some (dynamicPool t \<lparr>chan_cap = nat mx, chan_len = nat mx\<rparr>))"
    using DynamicPool_valid[of mx t] by simp
  have d0: "mx \<le> 0 \<Longrightarrow> DynamicPool t mx = Inr None" by (simp add: DynamicPool_def)
  have c1: "FixedPool t num = None \<longleftrightarrow> num \<le> 0" by (simp add: FixedPool_def)
  have c2: "DynamicPool t mx = Inr None \<longleftrightarrow> mx \<le> 0"
  proof (cases "mx \<le> 0")
    case True
    with d0 show ?thesis by simp
  next
    case False
    with d[of] show ?thesis by simp
  qed
  have c3: "Broadcast tasks = None \<longleftrightarrow> tasks = []" by (simp add: Broadcast_def)
  have c4: "0 < num \<longrightarrow> FixedPool t num = Some (fixedPool (replicate (nat num) (FIFO t)))"
    using f by (simp add: FixedPool_def)
  have c6: "tasks \<noteq> [] \<longrightarrow> Broadcast tasks = Some (broadcast (map FIFO tasks))"
    by (simp add: Broadcast_def)
  from c1 c2 c3 c4 d c6 show ?thesis by blast
qed

theorem constructors_nil_iff_invalid_witness:
  "FixedPool demo_task 0 = None \<and>
   FixedPool demo_task 2 = Some (fixedPool [FIFO demo_task, FIFO demo_task]) \<and>
   DynamicPool demo_task (- 1) = Inr None \<and>
   DynamicPool demo_task 2 = Inr (Some (dynamicPool demo_task \<lparr>chan_cap = 2, chan_len = 2\<rparr>)) \<and>
   Broadcast ([] :: nat task list) = None \<and>
   Broadcast [demo_task] = Some (broadcast [FIFO demo_task])"
  using constructors_nil_iff_invalid[of demo_task 0 "- 1" "[]"]
    constructors_nil_iff_invalid[of demo_task 2 2 "[demo_task]"]
  by (simp add: numeral_2_eq_2)

section \<open>The dynamic pool: claims\<close>

text \<open>
  Claim C3.  For a ceiling \<open>mx \<ge> 1\<close> the pool that \<open>DynamicPool\<close> builds holds exactly
  \<open>mx\<close> permits, and in every state that a run of \<^verbatim>\<open>Run\<close> reaches (under every schedule,
  so at every point of every run) at most \<open>mx\<close> units hold a permit.  A unit is launched
  only by the step that takes one permit out of the pool.
\<close>

theorem dynamicPool_bounded:
  assumes "1 \<le> mx" and "DynamicPool t mx = Inr (Some p)"
    and "dynamicPool_Run p sp items sched = Some s"
  shows "tokenPool p = \<lparr>chan_cap = nat mx, chan_len = nat mx\<rparr> \<and>
         holding s \<le> nat mx \<and>
         (\<forall>a s'. dstep sp (task p) a s = Some s' \<longrightarrow> length (units s') \<noteq> length (units s) \<longrightarrow>
            a = MainToken \<and> chan_len (pool s') + 1 = chan_len (pool s) \<and>
            (\<exists>dataIn. mpc s = AtPermit dataIn \<and> units s' = units s @ [AtProcess dataIn]))"
proof -
  from assms(1,2) have p: "p = dynamicPool t \<lparr>chan_cap = nat mx, chan_len = nat mx\<rparr>"
    using DynamicPool_valid[of mx t] by simp
  with assms(3) have "permits_inv \<lparr>chan_cap = nat mx, chan_len = nat mx\<rparr> s"
    by (auto simp: dynamicPool_Run_def intro: run_permits_inv)
  then have "holding s \<le> nat mx" by (simp add: permits_inv_def)
  moreover have "\<forall>a s'. dstep sp (task p) a s = Some s' \<longrightarrow> length (units s') \<noteq> length (units s) \<longrightarrow>
            a = MainToken \<and> chan_len (pool s') + 1 = chan_len (pool s) \<and>
            (\<exists>dataIn. mpc s = AtPermit dataIn \<and> units s' = units s @ [AtProcess dataIn])"
  proof (intro allI impI)
    fix a s' assume st: "dstep sp (task p) a s = Some s'" and ne: "length (units s') \<noteq> length (units s)"
    show "a = MainToken \<and> chan_len (pool s') + 1 = chan_len (pool s) \<and>
            (\<exists>dataIn. mpc s = AtPermit dataIn \<and> units s' = units s @ [AtProcess dataIn])"
    proof (cases a)
      case (Unit k ua)
      with st obtain u' s1 where "unit_step sp (task p) ua (units s ! k) s = Some (u', s1)"
        and "s' = s1\<lparr>units := (units s1)[k := u']\<rparr>"
        by (auto simp: dstep_def split: if_splits option.splits)
      with unit_step_cases[of sp "task p" ua "units s ! k" s u' s1] ne show ?thesis by auto
    next
      case MainToken
      with st ne show ?thesis
        by (auto simp: dstep_def tc_recv_def split: mpc.splits if_splits)
    qed (use st ne in \<open>auto simp: dstep_def split: mpc.splits if_splits list.splits option.splits\<close>)
  qed
  ultimately show ?thesis using p by simp
qed


theorem dynamicPool_bounded_witness:
  "(1::int) \<le> 2 \<and>
   DynamicPool demo_task 2 = Inr (Some (dynamicPool demo_task \<lparr>chan_cap = 2, chan_len = 2\<rparr>)) \<and>
   dynamicPool_Run (dynamicPool demo_task \<lparr>chan_cap = 2, chan_len = 2\<rparr>) demo_params [5, 7, 9]
     [MainInput, MainToken, MainInput, MainToken, MainInput] =
   Some \<lparr>mpc = AtPermit 9, pool = \<lparr>chan_cap = 2, chan_len = 0\<rparr>,
         units = [AtProcess 5, AtProcess 7], inq = [], input_closed = False, cancelled = False,
         outq = [], errq = [], processed = []\<rparr> \<and>
   tokenPool (dynamicPool demo_task \<lparr>chan_cap = 2, chan_len = 2\<rparr>) = \<lparr>chan_cap = 2, chan_len = 2\<rparr> \<and>
   holding \<lparr>mpc = AtPermit (9::nat), pool = \<lparr>chan_cap = 2, chan_len = 0\<rparr>,
         units = [AtProcess 5, AtProcess 7], inq = [], input_closed = False, cancelled = False,
         outq = [], errq = [], processed = []\<rparr> \<le> 2"
proof -
  have d: "DynamicPool demo_task 2 = Inr (Some (dynamicPool demo_task \<lparr>chan_cap = 2, chan_len = 2\<rparr>))"
    by (simp add: DynamicPool_def make_tokenChan_def tc_send_def numeral_2_eq_2)
  have r: "dynamicPool_Run (dynamicPool demo_task \<lparr>chan_cap = 2, chan_len = 2\<rparr>) demo_params [5, 7, 9]
     [MainInput, MainToken, MainInput, MainToken, MainInput] =
   Some \<lparr>mpc = AtPermit 9, pool = \<lparr>chan_cap = 2, chan_len = 0\<rparr>,
         units = [AtProcess 5, AtProcess 7], inq = [], input_closed = False, cancelled = False,
         outq = [], errq = [], processed = []\<rparr>"
    by (simp add: dynamicPool_Run_def dinit_def dstep_def tc_recv_def)
  from dynamicPool_bounded[OF _ d r] d r show ?thesis by simp
qed

lemma unit_step_Finished: "unit_step sp t ua Finished s = None"
  by (cases ua) simp_all

lemma unit_exec_Nil: "unit_exec sp t [] us = Some us"
  by (simp add: unit_exec_def)

lemma unit_exec_Cons:
  "unit_exec sp t (ua # uas) (u, s) =
     (case unit_step sp t ua u s of None \<Rightarrow> None | Some us' \<Rightarrow> unit_exec sp t uas us')"
  by (simp add: unit_exec_def split: option.splits)

lemma unit_exec_Finished:
  "unit_exec sp t uas (Finished, s) = Some us' \<Longrightarrow> uas = [] \<and> us' = (Finished, s)"
  by (cases uas) (simp_all add: unit_exec_Nil unit_exec_Cons unit_step_Finished)

lemma unit_exec_pool:
  "unit_exec sp t uas (u, s) = Some (u', s') \<Longrightarrow> u \<noteq> Finished \<Longrightarrow>
   chan_len (pool s') = chan_len (pool s) + (if u' = Finished then 1 else 0)"
proof (induction uas arbitrary: u s)
  case Nil
  then show ?case by (simp add: unit_exec_Nil)
next
  case (Cons ua uas)
  from Cons.prems(1) obtain u1 s1 where st: "unit_step sp t ua u s = Some (u1, s1)"
    and rest: "unit_exec sp t uas (u1, s1) = Some (u', s')"
    by (auto simp: unit_exec_Cons split: option.splits)
  show ?case
  proof (cases "u1 = Finished")
    case True
    with rest unit_exec_Finished[of sp t uas s1 "(u', s')"] have "u' = Finished" "s' = s1" by simp_all
    with unit_step_cases[OF st] True show ?thesis by auto
  next
    case False
    with Cons.IH[OF rest] unit_step_cases[OF st] show ?thesis by auto
  qed
qed

text \<open>What a unit does once it is returning: nothing but the release.\<close>

lemma unit_exec_AtDefer:
  "unit_exec sp t uas (AtDefer, s) = Some (u', s') \<Longrightarrow>
   outq s' = outq s \<and> errq s' = errq s \<and> processed s' = processed s"
proof (cases uas)
  case Nil
  then show "unit_exec sp t uas (AtDefer, s) = Some (u', s') \<Longrightarrow> ?thesis"
    by (simp add: unit_exec_Nil)
next
  case (Cons ua rest)
  assume run: "unit_exec sp t uas (AtDefer, s) = Some (u', s')"
  with Cons obtain u1 s1 where st: "unit_step sp t ua AtDefer s = Some (u1, s1)"
    and r: "unit_exec sp t rest (u1, s1) = Some (u', s')"
    by (auto simp: unit_exec_Cons split: option.splits)
  from st have u1: "u1 = Finished" and s1: "outq s1 = outq s \<and> errq s1 = errq s \<and> processed s1 = processed s"
    by (cases ua; auto split: option.splits)+
  from r u1 unit_exec_Finished[of sp t rest s1 "(u', s')"] have "s' = s1" by simp
  with s1 show ?thesis by simp
qed

lemma unit_exec_AtOutput:
  "unit_exec sp t uas (AtOutput out, s) = Some (u', s') \<Longrightarrow>
   errq s' = errq s \<and> processed s' = processed s \<and> (outq s' = outq s \<or> outq s' = outq s @ [out])"
proof (cases uas)
  case Nil
  then show "unit_exec sp t uas (AtOutput out, s) = Some (u', s') \<Longrightarrow> ?thesis"
    by (simp add: unit_exec_Nil)
next
  case (Cons ua rest)
  assume run: "unit_exec sp t uas (AtOutput out, s) = Some (u', s')"
  with Cons obtain u1 s1 where st: "unit_step sp t ua (AtOutput out) s = Some (u1, s1)"
    and r: "unit_exec sp t rest (u1, s1) = Some (u', s')"
    by (auto simp: unit_exec_Cons split: option.splits)
  from st have u1: "u1 = AtDefer"
    and s1: "errq s1 = errq s \<and> processed s1 = processed s \<and> (outq s1 = outq s \<or> outq s1 = outq s @ [out])"
    by (cases ua; auto split: option.splits if_splits)+
  from r u1 unit_exec_AtDefer[of sp t rest s1 u' s'] s1 show ?thesis by auto
qed


lemma unit_step_Process:
  "unit_step sp t Process (AtProcess dataIn) s =
     (case snd (t dataIn) of
        Some e \<Rightarrow> Some (AtDefer, s\<lparr>errq := errq s @ [wrap_error (stage sp) e]\<rparr>)
      | None \<Rightarrow>
          (case fst (t dataIn) of
             None \<Rightarrow> Some (AtDefer, s\<lparr>processed := processed s @ [dataIn]\<rparr>)
           | Some dataOut \<Rightarrow> Some (AtOutput dataOut, s)))"
  by (cases "t dataIn") (simp split: option.splits)

lemma holding_zero_iff: "holding s = 0 \<longleftrightarrow> (\<forall>u \<in> set (units s). u = Finished)"
  by (auto simp: holding_def filter_empty_conv)

lemma dynamic_returned:
  assumes "1 \<le> mx" and "DynamicPool t mx = Inr (Some p)"
    and "dynamicPool_Run p sp items sched = Some s" and "mpc s = Returned"
  shows "chan_cap (pool s) = nat mx \<and> chan_len (pool s) = 0 \<and> holding s = 0 \<and> drained s = nat mx"
proof -
  from assms(1,2) have p: "p = dynamicPool t \<lparr>chan_cap = nat mx, chan_len = nat mx\<rparr>"
    using DynamicPool_valid[of mx t] by simp
  with assms(3) have "permits_inv \<lparr>chan_cap = nat mx, chan_len = nat mx\<rparr> s"
    by (auto simp: dynamicPool_Run_def intro: run_permits_inv)
  with assms(4) show ?thesis by (simp add: permits_inv_def drained_def)
qed

text \<open>
  Claim C1, as amended.  After \<^verbatim>\<open>Run\<close> has returned, the final loop has taken all \<open>mx\<close>
  permits back: no unit holds one and the pool is empty.  \<^verbatim>\<open>Run\<close> does not put them
  back, so the pool holds \<open>0\<close> permits and not \<open>mx\<close>.
\<close>

theorem dynamicPool_empty_after_Run:
  assumes "1 \<le> mx" and "DynamicPool t mx = Inr (Some p)"
    and "dynamicPool_Run p sp items sched = Some s" and "mpc s = Returned"
  shows "chan_len (pool s) = 0 \<and> holding s = 0 \<and> drained s = nat mx"
  using dynamic_returned[OF assms] by simp

theorem dynamicPool_empty_after_Run_witness:
  "(1::int) \<le> 2 \<and>
   DynamicPool demo_task 2 = Inr (Some (dynamicPool demo_task \<lparr>chan_cap = 2, chan_len = 2\<rparr>)) \<and>
   dynamicPool_Run (dynamicPool demo_task \<lparr>chan_cap = 2, chan_len = 2\<rparr>) demo_params [5, 1]
     [MainInput, MainToken, MainInput, MainToken, Unit 1 Process, Unit 0 Process, Cancel,
      Unit 0 SeeDone, MainDone, Unit 1 Release, MainDrain, Unit 0 Release, MainDrain] =
   Some \<lparr>mpc = Returned, pool = \<lparr>chan_cap = 2, chan_len = 0\<rparr>, units = [Finished, Finished],
         inq = [], input_closed = False, cancelled = True, outq = [], errq = [],
         processed = [1]\<rparr> \<and>
   holding \<lparr>mpc = Returned, pool = \<lparr>chan_cap = 2, chan_len = 0\<rparr>, units = [Finished, Finished],
         inq = [], input_closed = False, cancelled = True, outq = [], errq = [],
         processed = [1::nat]\<rparr> = 0"
proof -
  have d: "DynamicPool demo_task 2 = Inr (Some (dynamicPool demo_task \<lparr>chan_cap = 2, chan_len = 2\<rparr>))"
    by (simp add: DynamicPool_def make_tokenChan_def tc_send_def numeral_2_eq_2)
  have r: "dynamicPool_Run (dynamicPool demo_task \<lparr>chan_cap = 2, chan_len = 2\<rparr>) demo_params [5, 1]
     [MainInput, MainToken, MainInput, MainToken, Unit 1 Process, Unit 0 Process, Cancel,
      Unit 0 SeeDone, MainDone, Unit 1 Release, MainDrain, Unit 0 Release, MainDrain] =
   Some \<lparr>mpc = Returned, pool = \<lparr>chan_cap = 2, chan_len = 0\<rparr>, units = [Finished, Finished],
         inq = [], input_closed = False, cancelled = True, outq = [], errq = [],
         processed = [1]\<rparr>"
    by (simp add: dynamicPool_Run_def dinit_def dstep_def tc_recv_def tc_send_def drain_loop_def
        demo_task_def)
  from dynamicPool_empty_after_Run[OF _ d r] d r show ?thesis by simp
qed

text \<open>
  Claim C1 as stated fails: a pool built with ceiling \<open>1\<close> processes one item, and when
  \<^verbatim>\<open>Run\<close> has returned the pool holds no permit.
\<close>

theorem dynamicPool_not_refilled:
  "DynamicPool demo_task 1 = Inr (Some (dynamicPool demo_task \<lparr>chan_cap = 1, chan_len = 1\<rparr>)) \<and>
   dynamicPool_Run (dynamicPool demo_task \<lparr>chan_cap = 1, chan_len = 1\<rparr>) demo_params [5]
     [MainInput, MainToken, CloseInput, MainInput, Unit 0 Process, Unit 0 Send, Unit 0 Release,
      MainDrain] =
   Some \<lparr>mpc = Returned, pool = \<lparr>chan_cap = 1, chan_len = 0\<rparr>, units = [Finished],
         inq = [], input_closed = True, cancelled = False, outq = [10], errq = [],
         processed = []\<rparr> \<and>
   chan_len (pool \<lparr>mpc = Returned, pool = \<lparr>chan_cap = 1, chan_len = 0\<rparr>, units = [Finished],
         inq = [], input_closed = True, cancelled = False, outq = [10::nat], errq = [],
         processed = []\<rparr>) \<noteq> 1"
  by (simp add: DynamicPool_def make_tokenChan_def tc_send_def
      dynamicPool_Run_def dinit_def dstep_def tc_recv_def drain_loop_def demo_task_def)

text \<open>
  Claim C4.  A unit returns its permit exactly once, when it finishes.  In the pool's
  run, a step of unit \<open>k\<close> is taken by a unit that has not finished, and it adds one
  permit to the pool when it is the step that finishes the unit and none otherwise; a
  finished unit takes no step.  Every path of a unit ends in that step: with room in the
  pool, the path of a failed transform, of a success without output, of an output
  written and of an output write given up on cancellation each run to the end.  And in
  a run of a pool that \<open>DynamicPool\<close> built there is room whenever a unit is about to
  release: the release does not block.
\<close>

theorem unit_returns_permit_once:
  "(dstep sp t (Unit k ua) s = Some s1 \<longrightarrow>
      k < length (units s) \<and> units s ! k \<noteq> Finished \<and>
      chan_len (pool s1) = chan_len (pool s) + (if units s1 ! k = Finished then 1 else 0)) \<and>
   (k < length (units s) \<and> units s ! k = Finished \<longrightarrow> dstep sp t (Unit k ua) s = None) \<and>
   (unit_exec sp t uas (AtProcess dataIn, s) = Some (u', s') \<longrightarrow>
      chan_len (pool s') = chan_len (pool s) + (if u' = Finished then 1 else 0)) \<and>
   (chan_len (pool s) < chan_cap (pool s) \<longrightarrow>
      (t dataIn = (dataOut, Some e) \<longrightarrow>
         unit_exec sp t [Process, Release] (AtProcess dataIn, s) =
           Some (Finished, s\<lparr>errq := errq s @ [wrap_error (stage sp) e],
                              pool := (pool s)\<lparr>chan_len := chan_len (pool s) + 1\<rparr>\<rparr>)) \<and>
      (t dataIn = (None, None) \<longrightarrow>
         unit_exec sp t [Process, Release] (AtProcess dataIn, s) =
           Some (Finished, s\<lparr>processed := processed s @ [dataIn],
                              pool := (pool s)\<lparr>chan_len := chan_len (pool s) + 1\<rparr>\<rparr>)) \<and>
      (t dataIn = (Some out, None) \<longrightarrow>
         unit_exec sp t [Process, Send, Release] (AtProcess dataIn, s) =
           Some (Finished, s\<lparr>outq := outq s @ [out],
                              pool := (pool s)\<lparr>chan_len := chan_len (pool s) + 1\<rparr>\<rparr>)) \<and>
      (t dataIn = (Some out, None) \<and> cancelled s \<longrightarrow>
         unit_exec sp t [Process, SeeDone, Release] (AtProcess dataIn, s) =
           Some (Finished, s\<lparr>pool := (pool s)\<lparr>chan_len := chan_len (pool s) + 1\<rparr>\<rparr>))) \<and>
   (1 \<le> mx \<and> DynamicPool t mx = Inr (Some p) \<and> dynamicPool_Run p sp items sched = Some s \<and>
    k < length (units s) \<and> units s ! k = AtDefer \<longrightarrow>
      dstep sp t (Unit k Release) s =
        Some (s\<lparr>pool := (pool s)\<lparr>chan_len := chan_len (pool s) + 1\<rparr>,
                units := (units s)[k := Finished]\<rparr>))"
proof -
  have a: "dstep sp t (Unit k ua) s = Some s1 \<longrightarrow>
      k < length (units s) \<and> units s ! k \<noteq> Finished \<and>
      chan_len (pool s1) = chan_len (pool s) + (if units s1 ! k = Finished then 1 else 0)"
  proof
    assume st: "dstep sp t (Unit k ua) s = Some s1"
    then obtain u1 s2 where k: "k < length (units s)"
      and us: "unit_step sp t ua (units s ! k) s = Some (u1, s2)"
      and s1: "s1 = s2\<lparr>units := (units s2)[k := u1]\<rparr>"
      by (auto simp: dstep_def split: if_splits option.splits)
    from unit_step_cases[OF us] k s1
    show "k < length (units s) \<and> units s ! k \<noteq> Finished \<and>
      chan_len (pool s1) = chan_len (pool s) + (if units s1 ! k = Finished then 1 else 0)"
      by auto
  qed
  have b: "k < length (units s) \<and> units s ! k = Finished \<longrightarrow> dstep sp t (Unit k ua) s = None"
    by (simp add: dstep_def unit_step_Finished)
  have c: "unit_exec sp t uas (AtProcess dataIn, s) = Some (u', s') \<longrightarrow>
      chan_len (pool s') = chan_len (pool s) + (if u' = Finished then 1 else 0)"
    using unit_exec_pool[of sp t uas "AtProcess dataIn" s u' s'] by simp
  have d: "chan_len (pool s) < chan_cap (pool s) \<longrightarrow>
      (t dataIn = (dataOut, Some e) \<longrightarrow>
         unit_exec sp t [Process, Release] (AtProcess dataIn, s) =
           Some (Finished, s\<lparr>errq := errq s @ [wrap_error (stage sp) e],
                              pool := (pool s)\<lparr>chan_len := chan_len (pool s) + 1\<rparr>\<rparr>)) \<and>
      (t dataIn = (None, None) \<longrightarrow>
         unit_exec sp t [Process, Release] (AtProcess dataIn, s) =
           Some (Finished, s\<lparr>processed := processed s @ [dataIn],
                              pool := (pool s)\<lparr>chan_len := chan_len (pool s) + 1\<rparr>\<rparr>)) \<and>
      (t dataIn = (Some out, None) \<longrightarrow>
         unit_exec sp t [Process, Send, Release] (AtProcess dataIn, s) =
           Some (Finished, s\<lparr>outq := outq s @ [out],
                              pool := (pool s)\<lparr>chan_len := chan_len (pool s) + 1\<rparr>\<rparr>)) \<and>
      (t dataIn = (Some out, None) \<and> cancelled s \<longrightarrow>
         unit_exec sp t [Process, SeeDone, Release] (AtProcess dataIn, s) =
           Some (Finished, s\<lparr>pool := (pool s)\<lparr>chan_len := chan_len (pool s) + 1\<rparr>\<rparr>))"
    by (simp add: unit_exec_Cons unit_exec_Nil tc_send_def unit_step_Process del: unit_step.simps(1))
  have e: "dstep sp t (Unit k Release) s =
        Some (s\<lparr>pool := (pool s)\<lparr>chan_len := chan_len (pool s) + 1\<rparr>,
                units := (units s)[k := Finished]\<rparr>)"
    if mx: "1 \<le> mx" and p: "DynamicPool t mx = Inr (Some p)"
      and run: "dynamicPool_Run p sp items sched = Some s"
      and k: "k < length (units s)" and u: "units s ! k = AtDefer"
  proof -
    from mx p have pe: "p = dynamicPool t \<lparr>chan_cap = nat mx, chan_len = nat mx\<rparr>"
      using DynamicPool_valid[of mx t] by simp
    with run have "permits_inv \<lparr>chan_cap = nat mx, chan_len = nat mx\<rparr> s"
      by (auto simp: dynamicPool_Run_def intro: run_permits_inv)
    moreover from k u have "0 < holding s" by (intro holding_pos[of k]) simp_all
    ultimately have "chan_len (pool s) < chan_cap (pool s)" by (simp add: permits_inv_def)
    with k u show ?thesis by (simp add: dstep_def tc_send_def)
  qed
  from a b c d e show ?thesis by blast
qed

lemma unit_exec_AtProcess:
  assumes "unit_exec sp t (ua # uas) (AtProcess dataIn, s) = Some (u', s')"
  shows "ua = Process \<and>
    (\<exists>u1 s1. unit_step sp t Process (AtProcess dataIn) s = Some (u1, s1) \<and>
       unit_exec sp t uas (u1, s1) = Some (u', s'))"
  using assms by (cases ua) (auto simp: unit_exec_Cons split: option.splits)

text \<open>
  Claim C7.  When the transform fails on an item, the unit wraps the error with the
  stage's position (\<^verbatim>\<open>pipeline stage <position>: <error>\<close>), appends it to the error sink
  and returns.  The item is dropped: whatever the unit does from its launch on, nothing
  is written to the output feed and nothing is marked processed, and the sink gets that
  one error.
\<close>

theorem unit_failure_reported_and_dropped:
  assumes "t dataIn = (dataOut, Some e)"
  shows "unit_step sp t Process (AtProcess dataIn) s =
           Some (AtDefer, s\<lparr>errq := errq s @ [''pipeline stage '' @ dec_int (stage sp) @ '': '' @ e]\<rparr>) \<and>
         (k < length (units s) \<and> units s ! k = AtProcess dataIn \<longrightarrow>
            dstep sp t (Unit k Process) s =
              Some (s\<lparr>errq := errq s @ [wrap_error (stage sp) e], units := (units s)[k := AtDefer]\<rparr>)) \<and>
         (unit_exec sp t uas (AtProcess dataIn, s) = Some (u', s') \<longrightarrow>
            outq s' = outq s \<and> processed s' = processed s \<and>
            errq s' = (if uas = [] then errq s else errq s @ [wrap_error (stage sp) e]))"
proof -
  from assms have st: "unit_step sp t Process (AtProcess dataIn) s =
      Some (AtDefer, s\<lparr>errq := errq s @ [wrap_error (stage sp) e]\<rparr>)"
    by (simp add: unit_step_Process del: unit_step.simps(1))
  then have a: "unit_step sp t Process (AtProcess dataIn) s =
           Some (AtDefer, s\<lparr>errq := errq s @ [''pipeline stage '' @ dec_int (stage sp) @ '': '' @ e]\<rparr>)"
    by (simp add: wrap_error_def del: unit_step.simps(1))
  have b: "k < length (units s) \<and> units s ! k = AtProcess dataIn \<longrightarrow>
            dstep sp t (Unit k Process) s =
              Some (s\<lparr>errq := errq s @ [wrap_error (stage sp) e], units := (units s)[k := AtDefer]\<rparr>)"
    using st by (simp add: dstep_def del: unit_step.simps(1))
  have c: "unit_exec sp t uas (AtProcess dataIn, s) = Some (u', s') \<longrightarrow>
            outq s' = outq s \<and> processed s' = processed s \<and>
            errq s' = (if uas = [] then errq s else errq s @ [wrap_error (stage sp) e])"
  proof (cases uas)
    case Nil
    then show ?thesis by (simp add: unit_exec_Nil)
  next
    case (Cons ua rest)
    show ?thesis
    proof
      assume "unit_exec sp t uas (AtProcess dataIn, s) = Some (u', s')"
      with Cons unit_exec_AtProcess[of sp t ua rest dataIn s u' s'] st
      have "unit_exec sp t rest (AtDefer, s\<lparr>errq := errq s @ [wrap_error (stage sp) e]\<rparr>) = Some (u', s')"
        by auto
      from unit_exec_AtDefer[OF this] Cons
      show "outq s' = outq s \<and> processed s' = processed s \<and>
            errq s' = (if uas = [] then errq s else errq s @ [wrap_error (stage sp) e])"
        by simp
    qed
  qed
  from a b c show ?thesis by blast
qed

text \<open>
  Claim C8.  When the transform succeeds and produces no item, the unit marks the input
  item processed and returns; nothing is written to the output feed.  When it produces
  an item, the unit stands at a \<^verbatim>\<open>select\<close> with two cases and no other step: the write
  of the item to the output feed, and the cancellation case, which is ready only once
  the context is cancelled and leaves the feed as it was; after it the unit only
  releases its permit, so the output is dropped.
\<close>

theorem unit_success_paths:
  "(t dataIn = (None, None) \<longrightarrow>
      unit_step sp t Process (AtProcess dataIn) s =
        Some (AtDefer, s\<lparr>processed := processed s @ [dataIn]\<rparr>) \<and>
      (unit_exec sp t uas (AtProcess dataIn, s) = Some (u', s') \<longrightarrow>
         outq s' = outq s \<and> errq s' = errq s)) \<and>
   (t dataIn = (Some dataOut, None) \<longrightarrow>
      unit_step sp t Process (AtProcess dataIn) s = Some (AtOutput dataOut, s) \<and>
      unit_step sp t Send (AtOutput dataOut) s = Some (AtDefer, s\<lparr>outq := outq s @ [dataOut]\<rparr>) \<and>
      unit_step sp t SeeDone (AtOutput dataOut) s = (if cancelled s then Some (AtDefer, s) else None) \<and>
      unit_step sp t Process (AtOutput dataOut) s = None \<and>
      unit_step sp t Release (AtOutput dataOut) s = None \<and>
      (unit_exec sp t uas (AtDefer, s) = Some (u', s') \<longrightarrow> outq s' = outq s) \<and>
      (unit_exec sp t uas (AtProcess dataIn, s) = Some (u', s') \<longrightarrow>
         processed s' = processed s \<and> errq s' = errq s \<and>
         (outq s' = outq s \<or> outq s' = outq s @ [dataOut])))"
proof -
  have nil: "outq s' = outq s \<and> errq s' = errq s"
    if t: "t dataIn = (None, None)" and run: "unit_exec sp t uas (AtProcess dataIn, s) = Some (u', s')"
  proof (cases uas)
    case Nil
    with run show ?thesis by (simp add: unit_exec_Nil)
  next
    case (Cons ua rest)
    from t have "unit_step sp t Process (AtProcess dataIn) s =
        Some (AtDefer, s\<lparr>processed := processed s @ [dataIn]\<rparr>)"
      by (simp add: unit_step_Process del: unit_step.simps(1))
    with run Cons unit_exec_AtProcess[of sp t ua rest dataIn s u' s']
    have "unit_exec sp t rest (AtDefer, s\<lparr>processed := processed s @ [dataIn]\<rparr>) = Some (u', s')"
      by auto
    from unit_exec_AtDefer[OF this] show ?thesis by simp
  qed
  have out: "processed s' = processed s \<and> errq s' = errq s \<and>
         (outq s' = outq s \<or> outq s' = outq s @ [dataOut])"
    if t: "t dataIn = (Some dataOut, None)"
      and run: "unit_exec sp t uas (AtProcess dataIn, s) = Some (u', s')"
  proof (cases uas)
    case Nil
    with run show ?thesis by (simp add: unit_exec_Nil)
  next
    case (Cons ua rest)
    from t have "unit_step sp t Process (AtProcess dataIn) s = Some (AtOutput dataOut, s)"
      by (simp add: unit_step_Process del: unit_step.simps(1))
    with run Cons unit_exec_AtProcess[of sp t ua rest dataIn s u' s']
    have "unit_exec sp t rest (AtOutput dataOut, s) = Some (u', s')"
      by auto
    from unit_exec_AtOutput[OF this] show ?thesis by simp
  qed
  have dfr: "unit_exec sp t uas (AtDefer, s) = Some (u', s') \<longrightarrow> outq s' = outq s"
    using unit_exec_AtDefer[of sp t uas s u' s'] by simp
  have steps: "t dataIn = (None, None) \<longrightarrow>
      unit_step sp t Process (AtProcess dataIn) s =
        Some (AtDefer, s\<lparr>processed := processed s @ [dataIn]\<rparr>)"
    "t dataIn = (Some dataOut, None) \<longrightarrow>
      unit_step sp t Process (AtProcess dataIn) s = Some (AtOutput dataOut, s)"
    by (simp_all add: unit_step_Process del: unit_step.simps(1))
  have sel: "unit_step sp t Send (AtOutput dataOut) s = Some (AtDefer, s\<lparr>outq := outq s @ [dataOut]\<rparr>)"
    "unit_step sp t SeeDone (AtOutput dataOut) s = (if cancelled s then Some (AtDefer, s) else None)"
    "unit_step sp t Process (AtOutput dataOut) s = None"
    "unit_step sp t Release (AtOutput dataOut) s = None"
    by simp_all
  from nil out dfr steps sel show ?thesis by blast
qed

text \<open>
  Claim C9.  The two places where cancellation discards an item that was taken from the
  input feed.  At the inner \<^verbatim>\<open>select\<close>, where \<^verbatim>\<open>Run\<close> holds an item and waits for a
  permit, the cancellation case only leaves the loop: no unit is launched, nothing is
  marked processed and no error is appended.  At the \<^verbatim>\<open>select\<close> of a unit that writes
  its output, the cancellation case only makes the unit return, and a returning unit
  marks nothing and appends no error.  In the whole stage the only step that marks an
  item processed is the \<^verbatim>\<open>Process\<close> step of a unit whose transform returned neither
  an item nor an error, and it marks that unit's input item.
\<close>

theorem cancellation_drops_silently:
  "(mpc s = AtPermit dataIn \<and> cancelled s \<longrightarrow>
      dstep sp t MainDone s = Some (s\<lparr>mpc := drain_loop 0 (pool s)\<rparr>)) \<and>
   (k < length (units s) \<and> units s ! k = AtOutput dataOut \<and> cancelled s \<longrightarrow>
      dstep sp t (Unit k SeeDone) s = Some (s\<lparr>units := (units s)[k := AtDefer]\<rparr>)) \<and>
   (unit_exec sp t uas (AtDefer, s) = Some (u', s') \<longrightarrow>
      processed s' = processed s \<and> errq s' = errq s) \<and>
   (dstep sp t a s = Some s1 \<and> processed s1 \<noteq> processed s \<longrightarrow>
      (\<exists>j d. a = Unit j Process \<and> j < length (units s) \<and> units s ! j = AtProcess d \<and>
             t d = (None, None) \<and> processed s1 = processed s @ [d]))"
proof -
  have a: "mpc s = AtPermit dataIn \<and> cancelled s \<longrightarrow>
      dstep sp t MainDone s = Some (s\<lparr>mpc := drain_loop 0 (pool s)\<rparr>)"
    by (simp add: dstep_def)
  have b: "k < length (units s) \<and> units s ! k = AtOutput dataOut \<and> cancelled s \<longrightarrow>
      dstep sp t (Unit k SeeDone) s = Some (s\<lparr>units := (units s)[k := AtDefer]\<rparr>)"
    by (simp add: dstep_def)
  have c: "unit_exec sp t uas (AtDefer, s) = Some (u', s') \<longrightarrow>
      processed s' = processed s \<and> errq s' = errq s"
    using unit_exec_AtDefer[of sp t uas s u' s'] by simp
  have d: "\<exists>j d. a = Unit j Process \<and> j < length (units s) \<and> units s ! j = AtProcess d \<and>
             t d = (None, None) \<and> processed s1 = processed s @ [d]"
    if st: "dstep sp t a s = Some s1" and ne: "processed s1 \<noteq> processed s"
  proof (cases a)
    case (Unit j ua)
    with st obtain u1 s2 where j: "j < length (units s)"
      and us: "unit_step sp t ua (units s ! j) s = Some (u1, s2)"
      and s1: "s1 = s2\<lparr>units := (units s2)[j := u1]\<rparr>"
      by (auto simp: dstep_def split: if_splits option.splits)
    from us ne s1 have "ua = Process \<and> (\<exists>d. units s ! j = AtProcess d \<and> t d = (None, None) \<and>
        processed s2 = processed s @ [d])"
      by (cases "(sp, t, ua, units s ! j, s)" rule: unit_step.cases)
         (auto split: prod.splits option.splits if_splits)
    with Unit j s1 show ?thesis by auto
  qed (use st ne in \<open>auto simp: dstep_def split: mpc.splits if_splits list.splits option.splits\<close>)
  from a b c d show ?thesis by blast
qed

lemma wrap_error_demo: "wrap_error 3 ''boom'' = ''pipeline stage 3: boom''"
  by (simp add: wrap_error_def dec_int_def dec_nat.simps)

theorem unit_returns_permit_once_witness:
  "dstep demo_params demo_task (Unit 3 SeeDone) demo_state =
     Some (demo_state\<lparr>units := [AtProcess 0, AtProcess 1, AtProcess 5, AtDefer]\<rparr>) \<and>
   chan_len (pool demo_state) < chan_cap (pool demo_state) \<and>
   demo_task 0 = (None, Some ''boom'') \<and>
   unit_exec demo_params demo_task [Process, Release] (AtProcess 0, demo_state) =
     Some (Finished, demo_state\<lparr>errq := [''pipeline stage 3: boom''],
                                  pool := \<lparr>chan_cap = 4, chan_len = 1\<rparr>\<rparr>) \<and>
   demo_task 5 = (Some 10, None) \<and> cancelled demo_state \<and>
   unit_exec demo_params demo_task [Process, SeeDone, Release] (AtProcess 5, demo_state) =
     Some (Finished, demo_state\<lparr>pool := \<lparr>chan_cap = 4, chan_len = 1\<rparr>\<rparr>) \<and>
   (1::int) \<le> 1 \<and>
   DynamicPool demo_task 1 = Inr (Some (dynamicPool demo_task \<lparr>chan_cap = 1, chan_len = 1\<rparr>)) \<and>
   dynamicPool_Run (dynamicPool demo_task \<lparr>chan_cap = 1, chan_len = 1\<rparr>) demo_params [1]
     [MainInput, MainToken, Unit 0 Process] =
     Some \<lparr>mpc = AtAccept, pool = \<lparr>chan_cap = 1, chan_len = 0\<rparr>, units = [AtDefer], inq = [],
           input_closed = False, cancelled = False, outq = [], errq = [], processed = [1]\<rparr> \<and>
   dstep demo_params demo_task (Unit 0 Release)
     \<lparr>mpc = AtAccept, pool = \<lparr>chan_cap = 1, chan_len = 0\<rparr>, units = [AtDefer], inq = [],
      input_closed = False, cancelled = False, outq = [], errq = [], processed = [1]\<rparr> =
     Some \<lparr>mpc = AtAccept, pool = \<lparr>chan_cap = 1, chan_len = 1\<rparr>, units = [Finished], inq = [],
           input_closed = False, cancelled = False, outq = [], errq = [], processed = [1]\<rparr>"
proof -
  let ?s = "\<lparr>mpc = AtAccept, pool = \<lparr>chan_cap = 1, chan_len = 0\<rparr>, units = [AtDefer], inq = [],
      input_closed = False, cancelled = False, outq = [], errq = [], processed = [1::nat]\<rparr>"
  have c: "DynamicPool demo_task 1 = Inr (Some (dynamicPool demo_task \<lparr>chan_cap = 1, chan_len = 1\<rparr>))"
    by (simp add: DynamicPool_def make_tokenChan_def tc_send_def)
  have r: "dynamicPool_Run (dynamicPool demo_task \<lparr>chan_cap = 1, chan_len = 1\<rparr>) demo_params [1]
     [MainInput, MainToken, Unit 0 Process] = Some ?s"
    by (simp add: dynamicPool_Run_def dinit_def dstep_def tc_recv_def demo_task_def)
  from unit_returns_permit_once[where sp = demo_params and t = demo_task and k = 3 and ua = SeeDone
      and s = demo_state
      and ?s1.0 = "demo_state\<lparr>units := [AtProcess 0, AtProcess 1, AtProcess 5, AtDefer]\<rparr>"
      and uas = "[Process, Release]" and dataIn = 0 and u' = Finished
      and s' = "demo_state\<lparr>errq := [''pipeline stage 3: boom''], pool := \<lparr>chan_cap = 4, chan_len = 1\<rparr>\<rparr>"
      and dataOut = None and e = "''boom''" and out = 10]
    unit_returns_permit_once[where sp = demo_params and t = demo_task and k = 3 and ua = SeeDone
      and s = demo_state
      and ?s1.0 = "demo_state\<lparr>units := [AtProcess 0, AtProcess 1, AtProcess 5, AtDefer]\<rparr>"
      and uas = "[Process, SeeDone, Release]" and dataIn = 5 and u' = Finished
      and s' = "demo_state\<lparr>pool := \<lparr>chan_cap = 4, chan_len = 1\<rparr>\<rparr>"
      and dataOut = None and e = "''boom''" and out = 10]
  have a: "dstep demo_params demo_task (Unit 3 SeeDone) demo_state =
     Some (demo_state\<lparr>units := [AtProcess 0, AtProcess 1, AtProcess 5, AtDefer]\<rparr>) \<and>
   chan_len (pool demo_state) < chan_cap (pool demo_state) \<and>
   demo_task 0 = (None, Some ''boom'') \<and>
   unit_exec demo_params demo_task [Process, Release] (AtProcess 0, demo_state) =
     Some (Finished, demo_state\<lparr>errq := [''pipeline stage 3: boom''],
                                  pool := \<lparr>chan_cap = 4, chan_len = 1\<rparr>\<rparr>) \<and>
   demo_task 5 = (Some 10, None) \<and> cancelled demo_state \<and>
   unit_exec demo_params demo_task [Process, SeeDone, Release] (AtProcess 5, demo_state) =
     Some (Finished, demo_state\<lparr>pool := \<lparr>chan_cap = 4, chan_len = 1\<rparr>\<rparr>)"
    by (simp add: demo_state_def demo_task_def demo_params_def dstep_def wrap_error_demo)
  from unit_returns_permit_once[where sp = demo_params and t = demo_task and k = 0 and s = ?s
      and mx = 1 and p = "dynamicPool demo_task \<lparr>chan_cap = 1, chan_len = 1\<rparr>" and items = "[1]"
      and sched = "[MainInput, MainToken, Unit 0 Process]"] c r
  have b: "dstep demo_params demo_task (Unit 0 Release) ?s =
     Some \<lparr>mpc = AtAccept, pool = \<lparr>chan_cap = 1, chan_len = 1\<rparr>, units = [Finished], inq = [],
           input_closed = False, cancelled = False, outq = [], errq = [], processed = [1]\<rparr>"
    by simp
  from a b c r show ?thesis by simp
qed

theorem unit_failure_reported_and_dropped_witness:
  "demo_task 0 = (None, Some ''boom'') \<and>
   unit_step demo_params demo_task Process (AtProcess 0) demo_state =
     Some (AtDefer, demo_state\<lparr>errq := [''pipeline stage 3: boom'']\<rparr>) \<and>
   dstep demo_params demo_task (Unit 0 Process) demo_state =
     Some (demo_state\<lparr>errq := [''pipeline stage 3: boom''],
                      units := [AtDefer, AtProcess 1, AtProcess 5, AtOutput 10]\<rparr>) \<and>
   unit_exec demo_params demo_task [Process, Release] (AtProcess 0, demo_state) =
     Some (Finished, demo_state\<lparr>errq := [''pipeline stage 3: boom''],
                                  pool := \<lparr>chan_cap = 4, chan_len = 1\<rparr>\<rparr>) \<and>
   outq (demo_state\<lparr>errq := [''pipeline stage 3: boom''],
                    pool := \<lparr>chan_cap = 4, chan_len = 1\<rparr>\<rparr>) = outq demo_state"
proof -
  have t: "demo_task 0 = (None, Some ''boom'')" by (simp add: demo_task_def)
  have r: "unit_exec demo_params demo_task [Process, Release] (AtProcess 0, demo_state) =
     Some (Finished, demo_state\<lparr>errq := [''pipeline stage 3: boom''],
                                  pool := \<lparr>chan_cap = 4, chan_len = 1\<rparr>\<rparr>)"
    by (simp add: unit_exec_def demo_state_def demo_task_def demo_params_def wrap_error_demo tc_send_def)
  from unit_failure_reported_and_dropped[where t = demo_task and dataIn = 0 and dataOut = None
      and e = "''boom''" and sp = demo_params and s = demo_state and k = 0
      and uas = "[Process, Release]" and u' = Finished
      and s' = "demo_state\<lparr>errq := [''pipeline stage 3: boom''],
                                  pool := \<lparr>chan_cap = 4, chan_len = 1\<rparr>\<rparr>"] t r
  show ?thesis
    by (simp add: demo_state_def demo_params_def wrap_error_demo dec_int_def dec_nat.simps)
qed

theorem unit_success_paths_witness:
  "demo_task 1 = (None, None) \<and>
   unit_step demo_params demo_task Process (AtProcess 1) demo_state =
     Some (AtDefer, demo_state\<lparr>processed := [1]\<rparr>) \<and>
   demo_task 5 = (Some 10, None) \<and>
   unit_step demo_params demo_task Process (AtProcess 5) demo_state = Some (AtOutput 10, demo_state) \<and>
   unit_step demo_params demo_task Send (AtOutput 10) demo_state =
     Some (AtDefer, demo_state\<lparr>outq := [10]\<rparr>) \<and>
   unit_step demo_params demo_task SeeDone (AtOutput 10) demo_state = Some (AtDefer, demo_state) \<and>
   unit_exec demo_params demo_task [Process, SeeDone, Release] (AtProcess 5, demo_state) =
     Some (Finished, demo_state\<lparr>pool := \<lparr>chan_cap = 4, chan_len = 1\<rparr>\<rparr>) \<and>
   outq (demo_state\<lparr>pool := \<lparr>chan_cap = 4, chan_len = 1\<rparr>\<rparr>) = outq demo_state"
proof -
  have t1: "demo_task 1 = (None, None)" and t5: "demo_task 5 = (Some 10, None)"
    by (simp_all add: demo_task_def)
  have r: "unit_exec demo_params demo_task [Process, SeeDone, Release] (AtProcess 5, demo_state) =
     Some (Finished, demo_state\<lparr>pool := \<lparr>chan_cap = 4, chan_len = 1\<rparr>\<rparr>)"
    by (simp add: unit_exec_def demo_state_def demo_task_def tc_send_def)
  from unit_success_paths[of demo_task 1 demo_params demo_state "[]" "AtProcess 1" demo_state 10]
    unit_success_paths[of demo_task 5 demo_params demo_state "[Process, SeeDone, Release]" Finished
      "demo_state\<lparr>pool := \<lparr>chan_cap = 4, chan_len = 1\<rparr>\<rparr>" 10] t1 t5 r
  show ?thesis by (simp add: demo_state_def)
qed

theorem cancellation_drops_silently_witness:
  "mpc demo_state = AtPermit 9 \<and> cancelled demo_state \<and>
   dstep demo_params demo_task MainDone demo_state = Some (demo_state\<lparr>mpc := AtDrain 0\<rparr>) \<and>
   units demo_state ! 3 = AtOutput 10 \<and>
   dstep demo_params demo_task (Unit 3 SeeDone) demo_state =
     Some (demo_state\<lparr>units := [AtProcess 0, AtProcess 1, AtProcess 5, AtDefer]\<rparr>) \<and>
   dstep demo_params demo_task (Unit 1 Process) demo_state =
     Some (demo_state\<lparr>processed := [1], units := [AtProcess 0, AtDefer, AtProcess 5, AtOutput 10]\<rparr>) \<and>
   processed (demo_state\<lparr>processed := [1], units := [AtProcess 0, AtDefer, AtProcess 5, AtOutput 10]\<rparr>)
     \<noteq> processed demo_state \<and>
   demo_task 1 = (None, None)"
  using cancellation_drops_silently[of demo_state 9 demo_params demo_task 3 10 "[]" AtDefer demo_state
      "Unit 1 Process"
      "demo_state\<lparr>processed := [1], units := [AtProcess 0, AtDefer, AtProcess 5, AtOutput 10]\<rparr>"]
  by (simp add: demo_state_def demo_task_def dstep_def drain_loop_def)

section \<open>Returning from Run: claims\<close>

text \<open>
  Claim C5.  Each stage's \<^verbatim>\<open>Run\<close> returns only after its own concurrent work is over.
  In every state in which \<^verbatim>\<open>Run\<close> of the fixed pool has returned, each of the
  \<^verbatim>\<open>len(fifos)\<close> replica goroutines has come back from its \<^verbatim>\<open>Run\<close> and is gone.  In
  every state in which \<^verbatim>\<open>Run\<close> of the dynamic pool has returned, its final loop has taken
  back all \<open>mx\<close> permits and every unit launched has finished.  In every state in which
  \<^verbatim>\<open>Run\<close> of the broadcast stage has returned, every private input channel is closed
  and every replica goroutine has come back from its \<^verbatim>\<open>Run\<close> and is gone.
\<close>

theorem Run_returns_after_own_work:
  "(fixedPool_Run (fixedPool fs) sp fsched = Some fin_f \<and> fpc fin_f = FReturned \<longrightarrow>
      length (f_replicas fin_f) = length fs \<and> (\<forall>r \<in> set (f_replicas fin_f). r = Exited)) \<and>
   (1 \<le> mx \<and> DynamicPool t mx = Inr (Some p) \<and>
    dynamicPool_Run p sp items dsched = Some fin_d \<and> mpc fin_d = Returned \<longrightarrow>
      drained fin_d = nat mx \<and> chan_len (pool fin_d) = 0 \<and>
      (\<forall>u \<in> set (units fin_d). u = Finished)) \<and>
   (broadcast_Run (broadcast bs) sp h refs bsched = Some fin_b \<and> bpc fin_b = BReturned \<longrightarrow>
      length (inChs fin_b) = length bs \<and> (\<forall>c \<in> set (inChs fin_b). c = Closed) \<and>
      length (b_replicas fin_b) = length bs \<and> (\<forall>r \<in> set (b_replicas fin_b). r = Exited))"
proof -
  have f: "length (f_replicas fin_f) = length fs \<and> (\<forall>r \<in> set (f_replicas fin_f). r = Exited)"
    if "fixedPool_Run (fixedPool fs) sp fsched = Some fin_f" "fpc fin_f = FReturned"
    using run_fixed_inv[OF that(1)] that(2) by (simp add: fixed_inv_def)
  have d: "drained fin_d = nat mx \<and> chan_len (pool fin_d) = 0 \<and>
      (\<forall>u \<in> set (units fin_d). u = Finished)"
    if "1 \<le> mx" "DynamicPool t mx = Inr (Some p)"
      "dynamicPool_Run p sp items dsched = Some fin_d" "mpc fin_d = Returned"
    using dynamic_returned[OF that] by (simp add: holding_zero_iff)
  have b: "length (inChs fin_b) = length bs \<and> (\<forall>c \<in> set (inChs fin_b). c = Closed) \<and>
      length (b_replicas fin_b) = length bs \<and> (\<forall>r \<in> set (b_replicas fin_b). r = Exited)"
    if "broadcast_Run (broadcast bs) sp h refs bsched = Some fin_b" "bpc fin_b = BReturned"
    using run_bcast_inv[OF that(1)] that(2) by (simp add: bcast_inv_def)
  from f d b show ?thesis by blast
qed

theorem Run_returns_after_own_work_witness:
  "fixedPool_Run (fixedPool [FIFO demo_task, FIFO demo_task]) demo_params
     [FGo, FGo, FRunReturns 1, FWgDone 1, FRunReturns 0, FWgDone 0, FWaitPasses] =
     Some \<lparr>fpc = FReturned, f_wg = 0, f_replicas = [Exited, Exited]\<rparr> \<and>
   (1::int) \<le> 2 \<and>
   DynamicPool demo_task 2 = Inr (Some (dynamicPool demo_task \<lparr>chan_cap = 2, chan_len = 2\<rparr>)) \<and>
   dynamicPool_Run (dynamicPool demo_task \<lparr>chan_cap = 2, chan_len = 2\<rparr>) demo_params [0]
     [MainInput, MainToken, CloseInput, MainInput, MainDrain, Unit 0 Process, Unit 0 Release,
      MainDrain] =
     Some \<lparr>mpc = Returned, pool = \<lparr>chan_cap = 2, chan_len = 0\<rparr>, units = [Finished],
           inq = [], input_closed = True, cancelled = False, outq = [],
           errq = [''pipeline stage 3: boom''], processed = []\<rparr> \<and>
   broadcast_Run (broadcast [FIFO demo_task, FIFO demo_task]) demo_params [''payload''] [0]
     [BGo, BGo, BMainInput, BDeliver, BDeliver, BCloseInput, BMainInput, BCloseCh, BCloseCh,
      BRunReturns 0, BRunReturns 1, BWgDone 0, BWgDone 1, BWaitPasses] =
     Some \<lparr>bpc = BReturned, b_wg = 0, b_replicas = [Exited, Exited], inChs = [Closed, Closed],
           sent = [(1, 1), (0, 0)], heap = [''payload'', ''payload''], b_inq = [],
           b_input_closed = True, b_cancelled = False\<rparr>"
proof -
  have f: "fixedPool_Run (fixedPool [FIFO demo_task, FIFO demo_task]) demo_params
     [FGo, FGo, FRunReturns 1, FWgDone 1, FRunReturns 0, FWgDone 0, FWaitPasses] =
     Some \<lparr>fpc = FReturned, f_wg = 0, f_replicas = [Exited, Exited]\<rparr>"
    by (simp add: fixedPool_Run_def finit_def fstep_def fspawn_loop_def numeral_2_eq_2)
  have c: "DynamicPool demo_task 2 = Inr (Some (dynamicPool demo_task \<lparr>chan_cap = 2, chan_len = 2\<rparr>))"
    by (simp add: DynamicPool_def make_tokenChan_def tc_send_def numeral_2_eq_2)
  have d: "dynamicPool_Run (dynamicPool demo_task \<lparr>chan_cap = 2, chan_len = 2\<rparr>) demo_params [0]
     [MainInput, MainToken, CloseInput, MainInput, MainDrain, Unit 0 Process, Unit 0 Release,
      MainDrain] =
     Some \<lparr>mpc = Returned, pool = \<lparr>chan_cap = 2, chan_len = 0\<rparr>, units = [Finished],
           inq = [], input_closed = True, cancelled = False, outq = [],
           errq = [''pipeline stage 3: boom''], processed = []\<rparr>"
    by (simp add: dynamicPool_Run_def dinit_def dstep_def tc_recv_def tc_send_def drain_loop_def
        demo_task_def demo_params_def wrap_error_demo)
  have b: "broadcast_Run (broadcast [FIFO demo_task, FIFO demo_task]) demo_params [''payload''] [0]
     [BGo, BGo, BMainInput, BDeliver, BDeliver, BCloseInput, BMainInput, BCloseCh, BCloseCh,
      BRunReturns 0, BRunReturns 1, BWgDone 0, BWgDone 1, BWaitPasses] =
     Some \<lparr>bpc = BReturned, b_wg = 0, b_replicas = [Exited, Exited], inChs = [Closed, Closed],
           sent = [(1, 1), (0, 0)], heap = [''payload'', ''payload''], b_inq = [],
           b_input_closed = True, b_cancelled = False\<rparr>"
    by (simp add: broadcast_Run_def binit_def bstep_def bspawn_loop_def bclose_loop_def
        fan_loop_def Clone_def receiving_def numeral_2_eq_2)
  from Run_returns_after_own_work[of "[FIFO demo_task, FIFO demo_task]" demo_params
      "[FGo, FGo, FRunReturns 1, FWgDone 1, FRunReturns 0, FWgDone 0, FWaitPasses]"
      "\<lparr>fpc = FReturned, f_wg = 0, f_replicas = [Exited, Exited]\<rparr>"
      2 demo_task "dynamicPool demo_task \<lparr>chan_cap = 2, chan_len = 2\<rparr>" "[0]"
      "[MainInput, MainToken, CloseInput, MainInput, MainDrain, Unit 0 Process, Unit 0 Release,
        MainDrain]"
      "\<lparr>mpc = Returned, pool = \<lparr>chan_cap = 2, chan_len = 0\<rparr>, units = [Finished],
           inq = [], input_closed = True, cancelled = False, outq = [],
           errq = [''pipeline stage 3: boom''], processed = []\<rparr>"
      "[FIFO demo_task, FIFO demo_task]" "[''payload'']" "[0]"
      "[BGo, BGo, BMainInput, BDeliver, BDeliver, BCloseInput, BMainInput, BCloseCh, BCloseCh,
        BRunReturns 0, BRunReturns 1, BWgDone 0, BWgDone 1, BWaitPasses]"
      "\<lparr>bpc = BReturned, b_wg = 0, b_replicas = [Exited, Exited], inChs = [Closed, Closed],
           sent = [(1, 1), (0, 0)], heap = [''payload'', ''payload''], b_inq = [],
           b_input_closed = True, b_cancelled = False\<rparr>"]
    f c d b
  show ?thesis by simp
qed

section \<open>The broadcast stage: claims\<close>

text \<open>
  Claim C10.  In every state that a run of the broadcast stage reaches, a replica that
  is inside its \<^verbatim>\<open>Run\<close> is the stage \<^verbatim>\<open>fifos[j]\<close> of its index, called with the parent's
  parameters except for the input feed: the position is the broadcast stage's own
  position (not the index of the branch), the output feed and the error sink are the
  parent's, and the input feed is the channel made for that replica, which no other
  replica has.  Once \<^verbatim>\<open>Run\<close> is past its first loop, every replica has been started.
\<close>

theorem broadcast_replica_params:
  assumes "broadcast_Run (broadcast fs) sp h refs sched = Some s" and "j < length fs"
  shows "(b_replicas s ! j = InRun st fp \<longrightarrow>
            st = fs ! j \<and> stage fp = stage sp \<and> errQueue fp = errQueue sp \<and>
            outCh fp = outCh sp \<and> inCh fp = Made j \<and> fp = sp\<lparr>inCh := Made j\<rparr> \<and>
            (\<forall>k st' fp'. k < length fs \<and> k \<noteq> j \<and> b_replicas s ! k = InRun st' fp' \<longrightarrow>
               inCh fp' \<noteq> inCh fp)) \<and>
         ((\<forall>i. bpc s \<noteq> BSpawn i) \<longrightarrow> b_replicas s ! j \<noteq> NotStarted)"
proof -
  note inv = run_bcast_inv[OF assms(1)]
  then have par: "\<forall>j < length fs. \<forall>st fp. b_replicas s ! j = InRun st fp \<longrightarrow>
        st = fs ! j \<and> fp = sp\<lparr>inCh := Made j\<rparr>"
    and len: "length (b_replicas s) = length fs"
    by (simp_all add: bcast_inv_def)
  have a: "st = fs ! j \<and> stage fp = stage sp \<and> errQueue fp = errQueue sp \<and>
            outCh fp = outCh sp \<and> inCh fp = Made j \<and> fp = sp\<lparr>inCh := Made j\<rparr> \<and>
            (\<forall>k st' fp'. k < length fs \<and> k \<noteq> j \<and> b_replicas s ! k = InRun st' fp' \<longrightarrow>
               inCh fp' \<noteq> inCh fp)"
    if r: "b_replicas s ! j = InRun st fp"
  proof -
    from par assms(2) r have e: "st = fs ! j" "fp = sp\<lparr>inCh := Made j\<rparr>" by auto
    have "inCh fp' \<noteq> inCh fp"
      if "k < length fs" "k \<noteq> j" "b_replicas s ! k = InRun st' fp'" for k st' fp'
    proof -
      from par that have "fp' = sp\<lparr>inCh := Made k\<rparr>" by auto
      with e that(2) show ?thesis by simp
    qed
    then have "\<forall>k st' fp'. k < length fs \<and> k \<noteq> j \<and> b_replicas s ! k = InRun st' fp' \<longrightarrow>
               inCh fp' \<noteq> inCh fp"
      by blast
    with e show ?thesis by simp
  qed
  have b: "b_replicas s ! j \<noteq> NotStarted" if "\<forall>i. bpc s \<noteq> BSpawn i"
  proof -
    from inv that have "\<forall>r \<in> set (b_replicas s). r \<noteq> NotStarted"
      by (cases "bpc s") (auto simp: bcast_inv_def)
    with assms(2) len show ?thesis by simp
  qed
  from a b show ?thesis by blast
qed

theorem broadcast_replica_params_witness:
  "broadcast_Run (broadcast [FIFO demo_task, FIFO demo_task]) demo_params [''payload''] [0]
     [BGo, BGo, BMainInput] =
     Some \<lparr>bpc = BSelect 0 1 1, b_wg = 2,
           b_replicas =
             [InRun (FIFO demo_task) \<lparr>stage = 3, inCh = Made 0, outCh = Ext 1, errQueue = 0\<rparr>,
              InRun (FIFO demo_task) \<lparr>stage = 3, inCh = Made 1, outCh = Ext 1, errQueue = 0\<rparr>],
           inChs = [Open, Open], sent = [], heap = [''payload'', ''payload''], b_inq = [],
           b_input_closed = False, b_cancelled = False\<rparr> \<and>
   (1::nat) < length [FIFO demo_task, FIFO demo_task] \<and>
   stage \<lparr>stage = 3, inCh = Made 1, outCh = Ext 1, errQueue = 0\<rparr> = stage demo_params \<and>
   \<lparr>stage = 3, inCh = Made 1, outCh = Ext 1, errQueue = 0\<rparr> = demo_params\<lparr>inCh := Made 1\<rparr>"
proof -
  have r: "broadcast_Run (broadcast [FIFO demo_task, FIFO demo_task]) demo_params [''payload''] [0]
     [BGo, BGo, BMainInput] =
     Some \<lparr>bpc = BSelect 0 1 1, b_wg = 2,
           b_replicas =
             [InRun (FIFO demo_task) \<lparr>stage = 3, inCh = Made 0, outCh = Ext 1, errQueue = 0\<rparr>,
              InRun (FIFO demo_task) \<lparr>stage = 3, inCh = Made 1, outCh = Ext 1, errQueue = 0\<rparr>],
           inChs = [Open, Open], sent = [], heap = [''payload'', ''payload''], b_inq = [],
           b_input_closed = False, b_cancelled = False\<rparr>"
    by (simp add: broadcast_Run_def binit_def bstep_def bspawn_loop_def bclose_loop_def
        fan_loop_def Clone_def receiving_def numeral_2_eq_2 demo_params_def)
  from broadcast_replica_params[OF r, of 1 "FIFO demo_task"
      "\<lparr>stage = 3, inCh = Made 1, outCh = Ext 1, errQueue = 0\<rparr>"] r
  show ?thesis by (simp add: demo_params_def)
qed

lemma exec_append:
  "exec step (as @ bs) s = (case exec step as s of None \<Rightarrow> None | Some s1 \<Rightarrow> exec step bs s1)"
  by (induction as arbitrary: s) (auto split: option.splits)

lemma bstep_BDeliver:
  assumes "bpc s = BSelect d (int i) fd" "receiving (b_replicas s ! i)" "inChs s ! i = Open"
  shows "bstep b sp BDeliver s = Some (fan_loop d (int i - 1) (s\<lparr>sent := sent s @ [(i, fd)]\<rparr>))"
  using assms by (simp add: bstep_def)

lemma fan_complete:
  assumes "bpc s = BSelect d (int i) fd" and "d < length (heap s)"
    and "\<forall>j \<le> i. receiving (b_replicas s ! j) \<and> inChs s ! j = Open"
  shows "exec (bstep b sp) (replicate (Suc i) BDeliver) s =
     Some (s\<lparr>bpc := BRecv,
             sent := sent s @ (i, fd) #
               map (\<lambda>j. (j, if j = 0 then d else length (heap s) + (i - 1 - j))) (rev [0..<i]),
             heap := heap s @ replicate (i - 1) (heap s ! d)\<rparr>)"
  using assms
proof (induction i arbitrary: s fd)
  case 0
  then have "bstep b sp BDeliver s = Some (fan_loop d (int 0 - 1) (s\<lparr>sent := sent s @ [(0, fd)]\<rparr>))"
    by (intro bstep_BDeliver) simp_all
  then show ?case by (simp add: fan_loop_def)
next
  case (Suc i)
  let ?s1 = "s\<lparr>sent := sent s @ [(Suc i, fd)]\<rparr>"
  from Suc.prems have st: "bstep b sp BDeliver s = Some (fan_loop d (int (Suc i) - 1) ?s1)"
    by (intro bstep_BDeliver) simp_all
  have i1: "int (Suc i) - 1 = int i" by simp
  show ?case
  proof (cases "i = 0")
    case True
    let ?s2 = "?s1\<lparr>bpc := BSelect d (int 0) d\<rparr>"
    from True have fl: "fan_loop d (int i) ?s1 = ?s2" by (simp add: fan_loop_def)
    have "exec (bstep b sp) (replicate (Suc 0) BDeliver) ?s2 =
       Some (?s2\<lparr>bpc := BRecv,
             sent := sent ?s2 @ (0, d) #
               map (\<lambda>j. (j, if j = 0 then d else length (heap ?s2) + (0 - 1 - j))) (rev [0..<0]),
             heap := heap ?s2 @ replicate (0 - 1) (heap ?s2 ! d)\<rparr>)"
      using Suc.prems by (intro Suc.IH[unfolded True]) simp_all
    with st i1 fl True show ?thesis by simp
  next
    case False
    let ?L = "length (heap s)"
    let ?s2 = "?s1\<lparr>heap := heap s @ [heap s ! d], bpc := BSelect d (int i) ?L\<rparr>"
    from False have fl: "fan_loop d (int i) ?s1 = ?s2" by (simp add: fan_loop_def Clone_def)
    have ih: "exec (bstep b sp) (replicate (Suc i) BDeliver) ?s2 =
       Some (?s2\<lparr>bpc := BRecv,
             sent := sent ?s2 @ (i, ?L) #
               map (\<lambda>j. (j, if j = 0 then d else length (heap ?s2) + (i - 1 - j))) (rev [0..<i]),
             heap := heap ?s2 @ replicate (i - 1) (heap ?s2 ! d)\<rparr>)"
      using Suc.prems by (intro Suc.IH) simp_all
    have m: "map (\<lambda>j. (j, if j = 0 then d else length (heap ?s2) + (i - 1 - j))) (rev [0..<i]) =
             map (\<lambda>j. (j, if j = 0 then d else ?L + (Suc i - 1 - j))) (rev [0..<i])"
      by (rule map_cong) auto
    have h: "heap ?s2 @ replicate (i - 1) (heap ?s2 ! d) = heap s @ replicate (Suc i - 1) (heap s ! d)"
      using Suc.prems(2) False by (cases i) (simp_all add: nth_append)
    have e: "sent ?s2 @ (i, ?L) # map (\<lambda>j. (j, if j = 0 then d else ?L + (Suc i - 1 - j))) (rev [0..<i]) =
             sent s @ (Suc i, fd) # map (\<lambda>j. (j, if j = 0 then d else ?L + (Suc i - 1 - j))) (rev [0..<Suc i])"
      using False by simp
    have "exec (bstep b sp) (replicate (Suc (Suc i)) BDeliver) s =
          exec (bstep b sp) (replicate (Suc i) BDeliver) ?s2"
      using st i1 fl by simp
    also have "\<dots> = Some (?s2\<lparr>bpc := BRecv,
             sent := sent s @ (Suc i, fd) #
               map (\<lambda>j. (j, if j = 0 then d else ?L + (Suc i - 1 - j))) (rev [0..<Suc i]),
             heap := heap s @ replicate (Suc i - 1) (heap s ! d)\<rparr>)"
      unfolding ih m h e ..
    also have "\<dots> = Some (s\<lparr>bpc := BRecv,
             sent := sent s @ (Suc i, fd) #
               map (\<lambda>j. (j, if j = 0 then d else ?L + (Suc i - 1 - j))) (rev [0..<Suc i]),
             heap := heap s @ replicate (Suc i - 1) (heap s ! d)\<rparr>)"
      by simp
    finally show ?thesis .
  qed
qed


lemma fanout_from_recv:
  assumes recv: "bpc s = BRecv" and inq: "b_inq s = d # rest" and valid: "d < length (heap s)"
    and ready: "\<forall>j < length (fifos b). receiving (b_replicas s ! j) \<and> inChs s ! j = Open"
    and n: "n = length (fifos b)"
  shows "exec (bstep b sp) (BMainInput # replicate n BDeliver) s =
     Some (s\<lparr>b_inq := rest, bpc := BRecv,
             sent := sent s @
               map (\<lambda>i. (i, if i = 0 then d else length (heap s) + (n - 1 - i))) (rev [0..<n]),
             heap := heap s @ replicate (n - 1) (heap s ! d)\<rparr>)"
proof -
  let ?L = "length (heap s)"
  let ?s0 = "s\<lparr>b_inq := rest\<rparr>"
  from recv inq n have st: "bstep b sp BMainInput s = Some (fan_loop d (int n - 1) ?s0)"
    by (simp add: bstep_def)
  consider "n = 0" | "n = 1" | "2 \<le> n" by linarith
  then show ?thesis
  proof cases
    case 1
    with st recv show ?thesis by (simp add: fan_loop_def)
  next
    case 2
    let ?s2 = "?s0\<lparr>bpc := BSelect d (int 0) d\<rparr>"
    from 2 have fl: "fan_loop d (int n - 1) ?s0 = ?s2" by (simp add: fan_loop_def)
    have "exec (bstep b sp) (replicate (Suc 0) BDeliver) ?s2 =
       Some (?s2\<lparr>bpc := BRecv,
             sent := sent ?s2 @ (0, d) #
               map (\<lambda>j. (j, if j = 0 then d else length (heap ?s2) + (0 - 1 - j))) (rev [0..<0]),
             heap := heap ?s2 @ replicate (0 - 1) (heap ?s2 ! d)\<rparr>)"
    proof (intro fan_complete)
      have "0 < length (fifos b)" unfolding n[symmetric] 2 by simp
      with ready have "receiving (b_replicas s ! 0) \<and> inChs s ! 0 = Open" by blast
      then show "\<forall>j\<le>0. receiving (b_replicas ?s2 ! j) \<and> inChs ?s2 ! j = Open" by simp
    qed (use valid in simp_all)
    with st fl 2 show ?thesis by simp
  next
    case 3
    then obtain i where i: "n = Suc (Suc i)" by (metis One_nat_def Suc_1 Suc_le_D Suc_le_mono)
    let ?s2 = "?s0\<lparr>heap := heap s @ [heap s ! d], bpc := BSelect d (int (Suc i)) ?L\<rparr>"
    from i have fl: "fan_loop d (int n - 1) ?s0 = ?s2" by (simp add: fan_loop_def Clone_def)
    have fc: "exec (bstep b sp) (replicate (Suc (Suc i)) BDeliver) ?s2 =
       Some (?s2\<lparr>bpc := BRecv,
             sent := sent ?s2 @ (Suc i, ?L) #
               map (\<lambda>j. (j, if j = 0 then d else length (heap ?s2) + (Suc i - 1 - j))) (rev [0..<Suc i]),
             heap := heap ?s2 @ replicate (Suc i - 1) (heap ?s2 ! d)\<rparr>)"
    proof (intro fan_complete)
      have "\<forall>j\<le>Suc i. j < length (fifos b)" unfolding n[symmetric] i by simp
      with ready have "\<forall>j\<le>Suc i. receiving (b_replicas s ! j) \<and> inChs s ! j = Open" by blast
      then show "\<forall>j\<le>Suc i. receiving (b_replicas ?s2 ! j) \<and> inChs ?s2 ! j = Open" by simp
    qed (use valid in simp_all)
    have m: "map (\<lambda>j. (j, if j = 0 then d else length (heap ?s2) + (Suc i - 1 - j))) (rev [0..<Suc i]) =
             map (\<lambda>j. (j, if j = 0 then d else ?L + (n - 1 - j))) (rev [0..<Suc i])"
      using i by (intro map_cong) auto
    have h: "heap ?s2 @ replicate (Suc i - 1) (heap ?s2 ! d) = heap s @ replicate (n - 1) (heap s ! d)"
      using valid i by (simp add: nth_append)
    have e: "sent ?s2 @ (Suc i, ?L) # map (\<lambda>j. (j, if j = 0 then d else ?L + (n - 1 - j))) (rev [0..<Suc i]) =
             sent s @ map (\<lambda>j. (j, if j = 0 then d else ?L + (n - 1 - j))) (rev [0..<n])"
      using i by simp
    have "exec (bstep b sp) (BMainInput # replicate n BDeliver) s =
          exec (bstep b sp) (replicate (Suc (Suc i)) BDeliver) ?s2"
      using st fl i by simp
    also have "\<dots> = Some (?s2\<lparr>bpc := BRecv,
             sent := sent s @ map (\<lambda>j. (j, if j = 0 then d else ?L + (n - 1 - j))) (rev [0..<n]),
             heap := heap s @ replicate (n - 1) (heap s ! d)\<rparr>)"
      unfolding fc m h e ..
    also have "\<dots> = Some (s\<lparr>b_inq := rest, bpc := BRecv,
             sent := sent s @ map (\<lambda>j. (j, if j = 0 then d else ?L + (n - 1 - j))) (rev [0..<n]),
             heap := heap s @ replicate (n - 1) (heap s ! d)\<rparr>)"
      by simp
    finally show ?thesis .
  qed
qed

lemma bstep_BDeliver_Some:
  assumes "bpc s = BSelect d i fd" and "bstep b sp BDeliver s = Some s1"
  shows "s1 = fan_loop d (i - 1) (s\<lparr>sent := sent s @ [(nat i, fd)]\<rparr>)"
  using assms by (simp add: bstep_def split: if_splits)

lemma exec_BDeliver_BRecv:
  assumes "bpc s = BRecv" and "exec (bstep b sp) (replicate k BDeliver) s = Some sk"
  shows "k = 0 \<and> sk = s"
  using assms by (cases k) (simp_all add: bstep_def)

text \<open>Any number of sends that do complete, from the inner \<^verbatim>\<open>select\<close> on.\<close>

lemma fan_partial:
  assumes "bpc s = BSelect d (int i) fd" and "d < length (heap s)"
    and "exec (bstep b sp) (replicate k BDeliver) s = Some sk"
  shows "k \<le> Suc i \<and>
     sent sk = sent s @ take k ((i, fd) #
       map (\<lambda>j. (j, if j = 0 then d else length (heap s) + (i - 1 - j))) (rev [0..<i])) \<and>
     heap sk = heap s @ replicate (min k (i - 1)) (heap s ! d)"
  using assms
proof (induction k arbitrary: s i fd)
  case 0
  then show ?case by simp
next
  case (Suc k)
  let ?s0 = "s\<lparr>sent := sent s @ [(i, fd)]\<rparr>"
  let ?L = "length (heap s)"
  from Suc.prems(3) obtain s1 where st: "bstep b sp BDeliver s = Some s1"
    and r: "exec (bstep b sp) (replicate k BDeliver) s1 = Some sk"
    by (auto split: option.splits)
  from bstep_BDeliver_Some[OF Suc.prems(1) st] have s1: "s1 = fan_loop d (int i - 1) ?s0" by simp
  show ?case
  proof (cases i)
    case 0
    with s1 have "s1 = ?s0\<lparr>bpc := BRecv\<rparr>" by (simp add: fan_loop_def)
    with exec_BDeliver_BRecv[of s1 b sp k sk] r have "k = 0" "sk = ?s0\<lparr>bpc := BRecv\<rparr>" by simp_all
    with 0 show ?thesis by simp
  next
    case (Suc i')
    show ?thesis
    proof (cases "i' = 0")
      case True
      with Suc s1 have e: "s1 = ?s0\<lparr>bpc := BSelect d (int 0) d\<rparr>" by (simp add: fan_loop_def)
      have "k \<le> Suc 0 \<and>
        sent sk = sent s1 @ take k ((0, d) #
          map (\<lambda>j. (j, if j = 0 then d else length (heap s1) + (0 - 1 - j))) (rev [0..<0])) \<and>
        heap sk = heap s1 @ replicate (min k (0 - 1)) (heap s1 ! d)"
        using Suc.prems(2) r unfolding e by (intro Suc.IH) simp_all
      with e Suc True show ?thesis by simp
    next
      case False
      let ?s2 = "?s0\<lparr>heap := heap s @ [heap s ! d], bpc := BSelect d (int i') ?L\<rparr>"
      from False Suc s1 have e: "s1 = ?s2" by (simp add: fan_loop_def Clone_def)
      have ih: "k \<le> Suc i' \<and>
        sent sk = sent ?s2 @ take k ((i', ?L) #
          map (\<lambda>j. (j, if j = 0 then d else length (heap ?s2) + (i' - 1 - j))) (rev [0..<i'])) \<and>
        heap sk = heap ?s2 @ replicate (min k (i' - 1)) (heap ?s2 ! d)"
        using Suc.prems(2) r unfolding e by (intro Suc.IH) simp_all
      have m: "map (\<lambda>j. (j, if j = 0 then d else length (heap ?s2) + (i' - 1 - j))) (rev [0..<i']) =
               map (\<lambda>j. (j, if j = 0 then d else ?L + (i - 1 - j))) (rev [0..<i'])"
        using Suc by (intro map_cong) auto
      have hd: "(i', ?L) = (i', if i' = 0 then d else ?L + (i - 1 - i'))"
        using False Suc by simp
      have l: "(i', ?L) # map (\<lambda>j. (j, if j = 0 then d else ?L + (i - 1 - j))) (rev [0..<i']) =
               map (\<lambda>j. (j, if j = 0 then d else ?L + (i - 1 - j))) (rev [0..<i])"
        using False Suc by simp
      have x: "heap ?s2 ! d = heap s ! d" using Suc.prems(2) by (simp add: nth_append)
      have c: "Suc (min k (i' - 1)) = min (Suc k) (i - 1)" using False Suc by simp
      have h: "heap ?s2 @ replicate (min k (i' - 1)) (heap ?s2 ! d) =
               heap s @ replicate (min (Suc k) (i - 1)) (heap s ! d)"
        unfolding x c[symmetric] by simp
      from ih have "Suc k \<le> Suc i" using Suc by simp
      moreover from ih have "sent sk = sent s @ take (Suc k) ((i, fd) #
          map (\<lambda>j. (j, if j = 0 then d else ?L + (i - 1 - j))) (rev [0..<i]))"
        unfolding m l by simp
      moreover from ih have "heap sk = heap s @ replicate (min (Suc k) (i - 1)) (heap s ! d)"
        unfolding h by simp
      ultimately show ?thesis by simp
    qed
  qed
qed


lemma fanout_partial_from_recv:
  assumes recv: "bpc s = BRecv" and inq: "b_inq s = d # rest" and valid: "d < length (heap s)"
    and n: "n = length (fifos b)"
    and run: "exec (bstep b sp) (BMainInput # replicate k BDeliver) s = Some sk"
  shows "k \<le> n \<and>
     sent sk = sent s @ take k
       (map (\<lambda>i. (i, if i = 0 then d else length (heap s) + (n - 1 - i))) (rev [0..<n])) \<and>
     heap sk = heap s @ replicate (min (k + 1) (n - 1)) (heap s ! d)"
proof -
  let ?L = "length (heap s)"
  let ?s0 = "s\<lparr>b_inq := rest\<rparr>"
  from recv inq n have st: "bstep b sp BMainInput s = Some (fan_loop d (int n - 1) ?s0)"
    by (simp add: bstep_def)
  with run have r: "exec (bstep b sp) (replicate k BDeliver) (fan_loop d (int n - 1) ?s0) = Some sk"
    by simp
  consider "n = 0" | "n = 1" | "2 \<le> n" by linarith
  then show ?thesis
  proof cases
    case 1
    then have "fan_loop d (int n - 1) ?s0 = ?s0\<lparr>bpc := BRecv\<rparr>" by (simp add: fan_loop_def)
    with r exec_BDeliver_BRecv[of "?s0\<lparr>bpc := BRecv\<rparr>" b sp k sk]
    have "k = 0" "sk = ?s0\<lparr>bpc := BRecv\<rparr>" by simp_all
    with 1 show ?thesis by simp
  next
    case 2
    let ?s2 = "?s0\<lparr>bpc := BSelect d (int 0) d\<rparr>"
    from 2 have fl: "fan_loop d (int n - 1) ?s0 = ?s2" by (simp add: fan_loop_def)
    have "k \<le> Suc 0 \<and>
      sent sk = sent ?s2 @ take k ((0, d) #
        map (\<lambda>j. (j, if j = 0 then d else length (heap ?s2) + (0 - 1 - j))) (rev [0..<0])) \<and>
      heap sk = heap ?s2 @ replicate (min k (0 - 1)) (heap ?s2 ! d)"
      using valid r unfolding fl by (intro fan_partial) simp_all
    with 2 show ?thesis by simp
  next
    case 3
    then obtain i where i: "n = Suc (Suc i)" by (metis One_nat_def Suc_1 Suc_le_D Suc_le_mono)
    let ?s2 = "?s0\<lparr>heap := heap s @ [heap s ! d], bpc := BSelect d (int (Suc i)) ?L\<rparr>"
    from i have fl: "fan_loop d (int n - 1) ?s0 = ?s2" by (simp add: fan_loop_def Clone_def)
    have fp: "k \<le> Suc (Suc i) \<and>
      sent sk = sent ?s2 @ take k ((Suc i, ?L) #
        map (\<lambda>j. (j, if j = 0 then d else length (heap ?s2) + (Suc i - 1 - j))) (rev [0..<Suc i])) \<and>
      heap sk = heap ?s2 @ replicate (min k (Suc i - 1)) (heap ?s2 ! d)"
      using valid r unfolding fl by (intro fan_partial) simp_all
    have m: "map (\<lambda>j. (j, if j = 0 then d else length (heap ?s2) + (Suc i - 1 - j))) (rev [0..<Suc i]) =
             map (\<lambda>j. (j, if j = 0 then d else ?L + (n - 1 - j))) (rev [0..<Suc i])"
      using i by (intro map_cong) auto
    have l: "(Suc i, ?L) # map (\<lambda>j. (j, if j = 0 then d else ?L + (n - 1 - j))) (rev [0..<Suc i]) =
             map (\<lambda>j. (j, if j = 0 then d else ?L + (n - 1 - j))) (rev [0..<n])"
      using i by simp
    have x: "heap ?s2 ! d = heap s ! d" using valid by (simp add: nth_append)
    have c: "Suc (min k (Suc i - 1)) = min (k + 1) (n - 1)" using i by simp
    have h: "heap ?s2 @ replicate (min k (Suc i - 1)) (heap ?s2 ! d) =
             heap s @ replicate (min (k + 1) (n - 1)) (heap s ! d)"
      unfolding x c[symmetric] by simp
    from fp have "k \<le> n" using i by simp
    moreover from fp have "sent sk = sent s @ take k
       (map (\<lambda>i. (i, if i = 0 then d else ?L + (n - 1 - i))) (rev [0..<n]))"
      unfolding m l by simp
    moreover from fp have "heap sk = heap s @ replicate (min (k + 1) (n - 1)) (heap s ! d)"
      unfolding h by simp
    ultimately show ?thesis by simp
  qed
qed

lemma take_rev_upt: "k \<le> n \<Longrightarrow> take k (rev [0..<n]) = rev [n - k..<n]"
  by (simp add: take_rev drop_upt)

text \<open>
  Claim C2.  \<^verbatim>\<open>Run\<close> of a broadcast stage with \<open>n\<close> replicas is at its outer \<^verbatim>\<open>select\<close> and
  the next item on the input feed is the reference \<open>d\<close>.  Let \<open>ref i\<close> be \<open>d\<close> for \<open>i = 0\<close>
  and the \<open>(n-1-i)\<close>-th object made after those of the store for \<open>i \<ge> 1\<close>.

  Whenever \<^verbatim>\<open>Run\<close> receives the item and \<open>k\<close> sends complete (all \<open>n\<close>, or fewer when
  cancellation or a replica that is gone cuts the loop short), the deliveries are to
  the replicas \<open>n-1, n-2, \<dots>, n-k\<close> in that order, replica \<open>i\<close> gets \<open>ref i\<close>, and behind
  every reference delivered is the payload of \<open>d\<close>.  While every replica is still
  receiving, all \<open>n\<close> sends can complete, and \<^verbatim>\<open>Run\<close> is back at its outer \<^verbatim>\<open>select\<close>.

  So replica \<open>0\<close> receives the original reference \<open>d\<close>, every replica \<open>i \<ge> 1\<close> receives
  a clone (an object that did not exist before), and the references of two different
  replicas differ: writing the payload behind one leaves the payload behind the other
  as it was.
\<close>

theorem broadcast_copy_discipline:
  fixes s :: "'p bstate" and d n :: nat and ref :: "nat \<Rightarrow> nat"
  defines "ref \<equiv> \<lambda>i. if i = 0 then d else length (heap s) + (n - 1 - i)"
  assumes run: "broadcast_Run (broadcast fs) sp h refs sched = Some s"
    and recv: "bpc s = BRecv" and inq: "b_inq s = d # rest" and valid: "d < length (heap s)"
    and n: "n = length fs"
  shows "(\<forall>k sk. broadcast_Run (broadcast fs) sp h refs
                    (sched @ BMainInput # replicate k BDeliver) = Some sk \<longrightarrow>
            k \<le> n \<and> sent sk = sent s @ map (\<lambda>i. (i, ref i)) (rev [n - k..<n]) \<and>
            (\<forall>i. n - k \<le> i \<and> i < n \<longrightarrow>
               ref i < length (heap sk) \<and> heap sk ! ref i = heap s ! d)) \<and>
         ((\<forall>j < n. receiving (b_replicas s ! j) \<and> inChs s ! j = Open) \<longrightarrow>
            (\<exists>s'. broadcast_Run (broadcast fs) sp h refs
                     (sched @ BMainInput # replicate n BDeliver) = Some s' \<and>
                  bpc s' = BRecv \<and> b_inq s' = rest)) \<and>
         (\<forall>i < n. (i = 0 \<longrightarrow> ref i = d) \<and> (0 < i \<longrightarrow> length (heap s) \<le> ref i)) \<and>
         (\<forall>i < n. \<forall>j < n. i \<noteq> j \<longrightarrow>
            ref i \<noteq> ref j \<and> (\<forall>hp v. hp[ref i := v] ! ref j = hp ! ref j))"
proof -
  let ?L = "length (heap s)"
  let ?x = "heap s ! d"
  have n': "n = length (fifos (broadcast fs))" using n by simp
  have cont: "broadcast_Run (broadcast fs) sp h refs (sched @ acts) =
      exec (bstep (broadcast fs) sp) acts s" for acts
    using run by (simp add: broadcast_Run_def exec_append)
  have part: "k \<le> n \<and> sent sk = sent s @ map (\<lambda>i. (i, ref i)) (rev [n - k..<n]) \<and>
            (\<forall>i. n - k \<le> i \<and> i < n \<longrightarrow>
               ref i < length (heap sk) \<and> heap sk ! ref i = heap s ! d)"
    if r: "broadcast_Run (broadcast fs) sp h refs
             (sched @ BMainInput # replicate k BDeliver) = Some sk" for k sk
  proof -
    from r have "exec (bstep (broadcast fs) sp) (BMainInput # replicate k BDeliver) s = Some sk"
      unfolding cont .
    from fanout_partial_from_recv[OF recv inq valid n' this]
    have k: "k \<le> n"
      and se: "sent sk = sent s @ take k (map (\<lambda>i. (i, ref i)) (rev [0..<n]))"
      and he: "heap sk = heap s @ replicate (min (k + 1) (n - 1)) ?x"
      by (simp_all add: ref_def)
    from se k have se': "sent sk = sent s @ map (\<lambda>i. (i, ref i)) (rev [n - k..<n])"
      by (simp add: take_map take_rev_upt)
    have pay: "ref i < length (heap sk) \<and> heap sk ! ref i = ?x" if i: "n - k \<le> i" "i < n" for i
    proof (cases "i = 0")
      case True
      with valid he show ?thesis by (simp add: ref_def nth_append)
    next
      case False
      then have ri: "ref i = ?L + (n - 1 - i)" by (simp add: ref_def)
      from False i have lt: "n - 1 - i < min (k + 1) (n - 1)" by auto
      then have "(heap s @ replicate (min (k + 1) (n - 1)) ?x) ! (?L + (n - 1 - i)) = ?x"
        unfolding nth_append_length_plus by simp
      with ri he lt show ?thesis by simp
    qed
    from k se' pay show ?thesis by blast
  qed
  have full: "\<exists>s'. broadcast_Run (broadcast fs) sp h refs
                     (sched @ BMainInput # replicate n BDeliver) = Some s' \<and>
                  bpc s' = BRecv \<and> b_inq s' = rest"
    if ready: "\<forall>j < n. receiving (b_replicas s ! j) \<and> inChs s ! j = Open"
  proof -
    from ready n have ready':
      "\<forall>j < length (fifos (broadcast fs)). receiving (b_replicas s ! j) \<and> inChs s ! j = Open"
      by simp
    from fanout_from_recv[OF recv inq valid ready' n', of sp] show ?thesis
      unfolding cont by simp
  qed
  have orig: "\<forall>i < n. (i = 0 \<longrightarrow> ref i = d) \<and> (0 < i \<longrightarrow> length (heap s) \<le> ref i)"
    unfolding ref_def by auto
  have ne: "ref i \<noteq> ref j" if "i < n" "j < n" "i \<noteq> j" for i j
    using that valid by (auto simp: ref_def)
  then have indep: "\<forall>i < n. \<forall>j < n. i \<noteq> j \<longrightarrow>
            ref i \<noteq> ref j \<and> (\<forall>hp v. hp[ref i := v] ! ref j = hp ! ref j)"
    by simp
  from part full orig indep show ?thesis by blast
qed

theorem broadcast_copy_discipline_witness:
  "broadcast_Run (broadcast [FIFO demo_task, FIFO demo_task, FIFO demo_task]) demo_params
     [''payload''] [0] [BGo, BGo, BGo] =
     Some \<lparr>bpc = BRecv, b_wg = 3,
           b_replicas =
             [InRun (FIFO demo_task) \<lparr>stage = 3, inCh = Made 0, outCh = Ext 1, errQueue = 0\<rparr>,
              InRun (FIFO demo_task) \<lparr>stage = 3, inCh = Made 1, outCh = Ext 1, errQueue = 0\<rparr>,
              InRun (FIFO demo_task) \<lparr>stage = 3, inCh = Made 2, outCh = Ext 1, errQueue = 0\<rparr>],
           inChs = [Open, Open, Open], sent = [], heap = [''payload''], b_inq = [0],
           b_input_closed = False, b_cancelled = False\<rparr> \<and>
   broadcast_Run (broadcast [FIFO demo_task, FIFO demo_task, FIFO demo_task]) demo_params
     [''payload''] [0] ([BGo, BGo, BGo] @ BMainInput # replicate 3 BDeliver) =
     Some \<lparr>bpc = BRecv, b_wg = 3,
           b_replicas =
             [InRun (FIFO demo_task) \<lparr>stage = 3, inCh = Made 0, outCh = Ext 1, errQueue = 0\<rparr>,
              InRun (FIFO demo_task) \<lparr>stage = 3, inCh = Made 1, outCh = Ext 1, errQueue = 0\<rparr>,
              InRun (FIFO demo_task) \<lparr>stage = 3, inCh = Made 2, outCh = Ext 1, errQueue = 0\<rparr>],
           inChs = [Open, Open, Open], sent = [(2, 1), (1, 2), (0, 0)],
           heap = [''payload'', ''payload'', ''payload''], b_inq = [],
           b_input_closed = False, b_cancelled = False\<rparr>"
proof -
  let ?fs = "[FIFO demo_task, FIFO demo_task, FIFO demo_task]"
  let ?rs = "[InRun (FIFO demo_task) \<lparr>stage = 3, inCh = Made 0, outCh = Ext 1, errQueue = 0\<rparr>,
              InRun (FIFO demo_task) \<lparr>stage = 3, inCh = Made 1, outCh = Ext 1, errQueue = 0\<rparr>,
              InRun (FIFO demo_task) \<lparr>stage = 3, inCh = Made 2, outCh = Ext 1, errQueue = 0\<rparr>]"
  let ?s = "\<lparr>bpc = BRecv, b_wg = 3, b_replicas = ?rs,
           inChs = [Open, Open, Open], sent = [], heap = [''payload''], b_inq = [0],
           b_input_closed = False, b_cancelled = False\<rparr>"
  have r: "broadcast_Run (broadcast ?fs) demo_params [''payload''] [0] [BGo, BGo, BGo] = Some ?s"
    by (simp add: broadcast_Run_def binit_def bstep_def bspawn_loop_def numeral_3_eq_3 demo_params_def)
  have pc: "bpc ?s = BRecv" and inq: "b_inq ?s = 0 # []" and valid: "0 < length (heap ?s)"
    and len: "3 = length ?fs"
    by simp_all
  note inst = broadcast_copy_discipline[OF r pc inq valid len]
  have e: "broadcast_Run (broadcast ?fs) demo_params [''payload''] [0]
        ([BGo, BGo, BGo] @ BMainInput # replicate 3 BDeliver) =
     Some \<lparr>bpc = BRecv, b_wg = 3, b_replicas = ?rs,
           inChs = [Open, Open, Open], sent = [(2, 1), (1, 2), (0, 0)],
           heap = [''payload'', ''payload'', ''payload''], b_inq = [],
           b_input_closed = False, b_cancelled = False\<rparr>"
    by (simp add: broadcast_Run_def binit_def bstep_def bspawn_loop_def numeral_3_eq_3 demo_params_def
        fan_loop_def Clone_def receiving_def)
  from inst r e show ?thesis by simp
qed

end
